theory Spec2Isabelle
  imports Complex_Main "HOL-Library.AList"
begin

section \<open>Data model\<close>

text \<open>
  The service keeps two pieces of mutable state: \<open>parkingData\<close>, a JavaScript \<open>Map\<close> from
  device id to the last report of that device, and \<open>slotHistory\<close>, an array of slot
  change events. Times are milliseconds since the epoch (the value of a \<open>Date\<close>).

  A request body is modelled in the shape the service documents: \<open>deviceId\<close> is a string
  or absent, \<open>slots\<close> is an array or absent (anything that is not an array behaves as
  absent), and an element of \<open>slots\<close> is either an object with the optional properties
  \<open>id\<close>, \<open>occupied\<close>, \<open>lastUpdate\<close> or an integer. A property that is absent reads as
  \<open>undefined\<close>, which is \<open>None\<close> here. JSON of another shape (a \<open>null\<close> element, an
  \<open>occupied\<close> that is no boolean, an \<open>id\<close> that is no integer) is outside the model.
\<close>

type_synonym time = int

datatype slot_in = SlotObj "int option" "bool option" "int option" | SlotNum int

fun in_id :: "slot_in \<Rightarrow> int option" where
  "in_id (SlotObj i oc lu) = i"
| "in_id (SlotNum n) = None"

fun in_occupied :: "slot_in \<Rightarrow> bool option" where
  "in_occupied (SlotObj i oc lu) = oc"
| "in_occupied (SlotNum n) = None"

fun in_lastUpdate :: "slot_in \<Rightarrow> int option" where
  "in_lastUpdate (SlotObj i oc lu) = lu"
| "in_lastUpdate (SlotNum n) = None"

record slot =
  slot_id :: int
  occupied :: "bool option"
  slot_lastUpdate :: time

record deviceData =
  deviceId :: string
  dev_timestamp :: "int option"
  wifiStatus :: "string option"
  slots :: "slot list"
  availableSlots :: int
  totalSlots :: int
  lastUpdate :: time

record historyLog =
  log_deviceId :: string
  log_slotId :: int
  previousState :: "bool option"
  newState :: "bool option"
  log_timestamp :: time
  ipAddress :: "string option"
  duration :: "int option"

record state =
  parkingData :: "(string \<times> deviceData) list"
  slotHistory :: "historyLog list"

text \<open>
  A request carries the body, the four places \<open>getClientIP\<close> looks at, and the value of
  every clock read the handler makes: \<open>now_slot i\<close> is \<open>Date.now()\<close> while slot \<open>i\<close> is
  normalised, \<open>now_log i\<close> and \<open>now_dur i\<close> are the two \<open>new Date()\<close> of the call of
  \<open>logSlotChange\<close> for slot \<open>i\<close> (the event's timestamp, and the instant the duration is
  measured at), \<open>now_store\<close> is the \<open>lastUpdate\<close> of the stored report and \<open>now_response\<close>
  the timestamp of the answer. Nothing is assumed about these values.
\<close>

record request =
  req_deviceId :: "string option"
  req_timestamp :: "int option"
  req_wifiStatus :: "string option"
  req_slots :: "slot_in list option"
  x_forwarded_for :: "string option"
  connection_remoteAddress :: "string option"
  socket_remoteAddress :: "string option"
  connection_socket :: "string option option"
  now_slot :: "nat \<Rightarrow> time"
  now_log :: "nat \<Rightarrow> time"
  now_dur :: "nat \<Rightarrow> time"
  now_store :: time
  now_response :: time

text \<open>The JSON values of an answer; \<open>JDate\<close> is a date printed by \<open>toISOString\<close>.\<close>

datatype json =
  JNull | JBool bool | JNum int | JStr string | JDate time
  | JArr "json list" | JObj "(string \<times> json) list"

record response =
  status :: nat
  payload :: json

section \<open>The history log\<close>

text \<open>\<open>a || b\<close> on strings that may be absent: the empty string is falsy.\<close>

definition js_or :: "string option \<Rightarrow> string option \<Rightarrow> string option" where
  "js_or a b = (case a of None \<Rightarrow> b | Some s \<Rightarrow> if s = [] then b else a)"

definition getClientIP :: "request \<Rightarrow> string option" where
  "getClientIP req =
     js_or (x_forwarded_for req)
       (js_or (connection_remoteAddress req)
          (js_or (socket_remoteAddress req)
             (case connection_socket req of None \<Rightarrow> None | Some a \<Rightarrow> a)))"

text \<open>
  \<open>slotHistory.slice().reverse().find(...)\<close>: the most recent event of the slot that
  made it occupied.
\<close>

definition madeOccupied :: "string \<Rightarrow> int \<Rightarrow> historyLog \<Rightarrow> bool" where
  "madeOccupied dev sid h = (log_deviceId h = dev \<and> log_slotId h = sid \<and> newState h = Some True)"

definition lastOccupied :: "string \<Rightarrow> int \<Rightarrow> historyLog list \<Rightarrow> historyLog option" where
  "lastOccupied dev sid hist = find (madeOccupied dev sid) (rev hist)"

text \<open>The event \<open>logSlotChange\<close> builds, with its duration filled in or left \<open>null\<close>.\<close>

definition newLog ::
  "time \<Rightarrow> time \<Rightarrow> string \<Rightarrow> int \<Rightarrow> bool option \<Rightarrow> bool option \<Rightarrow> string option
     \<Rightarrow> historyLog list \<Rightarrow> historyLog" where
  "newLog t_log t_dur dev sid prev new ip hist =
     (let lg = \<lparr> log_deviceId = dev, log_slotId = sid, previousState = prev, newState = new,
                  log_timestamp = t_log, ipAddress = ip, duration = None \<rparr>
      in if prev = Some True \<and> new = Some False
         then (case lastOccupied dev sid hist of
                 None \<Rightarrow> lg
               | Some lo \<Rightarrow> lg \<lparr> duration := Some (t_dur - log_timestamp lo) \<rparr>)
         else lg)"

text \<open>
  \<open>logSlotChange\<close> pushes the event and, when the array is then longer than the cap,
  shifts one event off the front. The cap is 10000 in \<open>server.js\<close> and 5000 in the
  variant with authentication.
\<close>

definition logSlotChange ::
  "nat \<Rightarrow> time \<Rightarrow> time \<Rightarrow> string \<Rightarrow> int \<Rightarrow> bool option \<Rightarrow> bool option \<Rightarrow> string option
     \<Rightarrow> historyLog list \<Rightarrow> historyLog list" where
  "logSlotChange cap t_log t_dur dev sid prev new ip hist =
     (let pushed = hist @ [newLog t_log t_dur dev sid prev new ip hist]
      in if length pushed > cap then tl pushed else pushed)"

definition cap_server :: nat where
  "cap_server = 10000"

definition cap_auth :: nat where
  "cap_auth = 5000"

section \<open>POST /api/parking-status\<close>

text \<open>
  \<open>typeof slots[0] === "object" && slots[0].hasOwnProperty("occupied")\<close> chooses between
  the two branches, looking at the first element only.
\<close>

fun isSlotObject :: "slot_in \<Rightarrow> bool" where
  "isSlotObject (SlotObj i (Some oc) lu) = True"
| "isSlotObject s = False"

text \<open>\<open>!slot.occupied\<close> and \<open>slot === 0\<close>, the two filters that count available slots.\<close>

definition notOccupied :: "slot_in \<Rightarrow> bool" where
  "notOccupied s = (in_occupied s \<noteq> Some True)"

definition isZero :: "slot_in \<Rightarrow> bool" where
  "isZero s = (s = SlotNum 0)"

text \<open>The slot built in the object branch and in the simple array branch.\<close>

definition slotDataA :: "request \<Rightarrow> nat \<Rightarrow> slot_in \<Rightarrow> slot" where
  "slotDataA req index s =
     \<lparr> slot_id = (case in_id s of None \<Rightarrow> int index + 1
                   | Some i \<Rightarrow> if i = 0 then int index + 1 else i),
       occupied = in_occupied s,
       slot_lastUpdate = (case in_lastUpdate s of None \<Rightarrow> now_slot req index
                          | Some t \<Rightarrow> if t = 0 then now_slot req index else t) \<rparr>"

definition slotDataB :: "request \<Rightarrow> nat \<Rightarrow> slot_in \<Rightarrow> slot" where
  "slotDataB req index s =
     \<lparr> slot_id = int index + 1,
       occupied = Some (s = SlotNum 1),
       slot_lastUpdate = now_slot req index \<rparr>"

text \<open>
  The check both branches make after building a slot: find the slot of the same id in
  the previous report, and log a change when its \<open>occupied\<close> differs.
\<close>

definition checkChanged ::
  "nat \<Rightarrow> request \<Rightarrow> string \<Rightarrow> slot list \<Rightarrow> nat \<Rightarrow> slot \<Rightarrow> historyLog list \<Rightarrow> historyLog list" where
  "checkChanged cap req dev previousSlots index slotData hist =
     (case find (\<lambda>p. slot_id p = slot_id slotData) previousSlots of
        None \<Rightarrow> hist
      | Some previousSlot \<Rightarrow>
          if occupied previousSlot \<noteq> occupied slotData
          then logSlotChange cap (now_log req index) (now_dur req index) dev (slot_id slotData)
                 (occupied previousSlot) (occupied slotData) (getClientIP req) hist
          else hist)"

text \<open>\<open>slots.map((slot, index) => ...)\<close>, with the history log threaded through.\<close>

fun mapSlots ::
  "(nat \<Rightarrow> slot_in \<Rightarrow> slot) \<Rightarrow> (nat \<Rightarrow> slot \<Rightarrow> historyLog list \<Rightarrow> historyLog list)
     \<Rightarrow> nat \<Rightarrow> slot_in list \<Rightarrow> historyLog list \<Rightarrow> slot list \<times> historyLog list" where
  "mapSlots mk chk index [] hist = ([], hist)"
| "mapSlots mk chk index (s # ss) hist =
     (let slotData = mk index s;
          hist1 = chk index slotData hist;
          rest = mapSlots mk chk (Suc index) ss hist1
      in (slotData # fst rest, snd rest))"

definition previousSlotsOf :: "state \<Rightarrow> string \<Rightarrow> slot list" where
  "previousSlotsOf st dev =
     (case map_of (parkingData st) dev of None \<Rightarrow> [] | Some previousData \<Rightarrow> slots previousData)"

text \<open>
  The part of the handler between the validation and the store: it yields
  \<open>availableSlots\<close>, \<open>totalSlots\<close>, \<open>processedSlots\<close> and the history log.
\<close>

definition processSlots ::
  "nat \<Rightarrow> state \<Rightarrow> request \<Rightarrow> string \<Rightarrow> int \<times> int \<times> slot list \<times> historyLog list" where
  "processSlots cap st req dev =
     (case req_slots req of
        None \<Rightarrow> (0, 0, [], slotHistory st)
      | Some [] \<Rightarrow> (0, 0, [], slotHistory st)
      | Some (s0 # ss) \<Rightarrow>
          (let sl = s0 # ss;
               chk = checkChanged cap req dev (previousSlotsOf st dev)
           in if isSlotObject s0
              then (let r = mapSlots (slotDataA req) chk 0 sl (slotHistory st)
                    in (int (length (filter notOccupied sl)), int (length sl), fst r, snd r))
              else (let r = mapSlots (slotDataB req) chk 0 sl (slotHistory st)
                    in (int (length (filter isZero sl)), int (length sl), fst r, snd r))))"

definition badRequest :: response where
  "badRequest = \<lparr> status = 400, payload = JObj [(''error'', JStr ''Device ID is required'')] \<rparr>"

definition updated :: "string \<Rightarrow> int \<Rightarrow> int \<Rightarrow> time \<Rightarrow> response" where
  "updated dev av tot t =
     \<lparr> status = 200,
       payload = JObj [(''success'', JBool True),
                       (''message'', JStr ''Parking status updated successfully''),
                       (''data'', JObj [(''deviceId'', JStr dev), (''availableSlots'', JNum av),
                                        (''totalSlots'', JNum tot), (''timestamp'', JDate t)])] \<rparr>"

definition postParkingStatus :: "nat \<Rightarrow> state \<Rightarrow> request \<Rightarrow> state \<times> response" where
  "postParkingStatus cap st req =
     (case req_deviceId req of
        None \<Rightarrow> (st, badRequest)
      | Some dev \<Rightarrow>
          if dev = [] then (st, badRequest)
          else (case processSlots cap st req dev of
                  (av, tot, processedSlots, hist) \<Rightarrow>
                    (\<lparr> parkingData =
                         AList.update dev
                           \<lparr> deviceId = dev, dev_timestamp = req_timestamp req,
                             wifiStatus = req_wifiStatus req, slots = processedSlots,
                             availableSlots = av, totalSlots = tot,
                             lastUpdate = now_store req \<rparr>
                           (parkingData st),
                       slotHistory = hist \<rparr>,
                     updated dev av tot (now_response req))))"

definition initial :: state where
  "initial = \<lparr> parkingData = [], slotHistory = [] \<rparr>"

text \<open>The state after a sequence of requests, each handled to its end before the next.\<close>

definition run :: "nat \<Rightarrow> state \<Rightarrow> request list \<Rightarrow> state" where
  "run cap st reqs = foldl (\<lambda>s r. fst (postParkingStatus cap s r)) st reqs"

section \<open>GET /api/admin/dashboard\<close>

text \<open>
  The dashboard is recomputed from \<open>parkingData\<close> and \<open>slotHistory\<close> at every call; \<open>now\<close>
  is its clock read. Quotients are taken over the rationals where the source divides
  IEEE doubles: \<open>jsRound\<close> is \<open>Math.round\<close>, and \<open>toFixed1\<close> is
  \<open>Number.prototype.toFixed(1)\<close> (the integer \<open>n\<close> with \<open>n / 10\<close> nearest to the number,
  the larger one at a tie, the sign apart). On a quotient that lies midway between two
  numbers of one decimal the double can fall on the other side of the tie, and the
  source then prints the other of the two. An occupancy rate is the number \<open>0\<close> or the
  string \<open>toFixed\<close> printed, kept as its value in tenths.
\<close>

definition toFixed1 :: "rat \<Rightarrow> int" where
  "toFixed1 x = (if x < 0 then - \<lfloor>- x * 10 + 1 / 2\<rfloor> else \<lfloor>x * 10 + 1 / 2\<rfloor>)"

definition jsRound :: "rat \<Rightarrow> int" where
  "jsRound x = \<lfloor>x + 1 / 2\<rfloor>"

datatype rate = RateZero | RateFixed int

fun rateValue :: "rate \<Rightarrow> rat" where
  "rateValue RateZero = 0"
| "rateValue (RateFixed n) = of_int n / 10"

record deviceStatus =
  cs_deviceId :: string
  cs_totalSlots :: int
  cs_availableSlots :: int
  occupiedSlots :: int
  occupancyRate :: rate
  cs_lastUpdate :: time
  cs_wifiStatus :: "string option"
  cs_slots :: "slot list"

definition statusOf :: "deviceData \<Rightarrow> deviceStatus" where
  "statusOf d =
     \<lparr> cs_deviceId = deviceId d,
       cs_totalSlots = totalSlots d,
       cs_availableSlots = availableSlots d,
       occupiedSlots = totalSlots d - availableSlots d,
       occupancyRate =
         (if totalSlots d > 0
          then RateFixed (toFixed1
                 (of_int (totalSlots d - availableSlots d) / of_int (totalSlots d) * 100))
          else RateZero),
       cs_lastUpdate = lastUpdate d,
       cs_wifiStatus = wifiStatus d,
       cs_slots = slots d \<rparr>"

definition currentStatus :: "state \<Rightarrow> deviceStatus list" where
  "currentStatus st = map (\<lambda>kv. statusOf (snd kv)) (parkingData st)"

record slotStats =
  stat_slotId :: int
  totalOccupations :: int
  totalDuration :: int
  averageDuration :: int
  currentlyOccupied :: "bool option"
  last24hOccupations :: int
  last7dOccupations :: int

text \<open>
  \<open>slotUsageStats\<close> is an object of objects, keyed by device id and by slot id; it is a
  map of maps here. Device ids that name a member of \<open>Object.prototype\<close> are outside the
  model.
\<close>

type_synonym usage = "string \<rightharpoonup> (int \<rightharpoonup> slotStats)"

definition initSlot :: "(int \<rightharpoonup> slotStats) \<Rightarrow> slot \<Rightarrow> (int \<rightharpoonup> slotStats)" where
  "initSlot m slot =
     (case m (slot_id slot) of
        Some existing \<Rightarrow> m
      | None \<Rightarrow> m(slot_id slot \<mapsto>
          \<lparr> stat_slotId = slot_id slot, totalOccupations = 0, totalDuration = 0,
            averageDuration = 0, currentlyOccupied = occupied slot,
            last24hOccupations = 0, last7dOccupations = 0 \<rparr>))"

definition initDevice :: "usage \<Rightarrow> deviceStatus \<Rightarrow> usage" where
  "initDevice u device =
     (let inner = (case u (cs_deviceId device) of None \<Rightarrow> Map.empty | Some m \<Rightarrow> m)
      in u(cs_deviceId device \<mapsto> foldl initSlot inner (cs_slots device)))"

text \<open>\<open>log.duration\<close> as a condition: \<open>null\<close> and \<open>0\<close> are both falsy.\<close>

definition durationTruthy :: "historyLog \<Rightarrow> bool" where
  "durationTruthy lg = (case duration lg of None \<Rightarrow> False | Some d \<Rightarrow> d \<noteq> 0)"

definition countLog :: "time \<Rightarrow> time \<Rightarrow> usage \<Rightarrow> historyLog \<Rightarrow> usage" where
  "countLog last24Hours last7Days u lg =
     (case u (log_deviceId lg) of
        None \<Rightarrow> u
      | Some m \<Rightarrow>
          (case m (log_slotId lg) of
             None \<Rightarrow> u
           | Some slotStats \<Rightarrow>
               (let s1 = (if newState lg = Some True
                          then slotStats
                            \<lparr> totalOccupations := totalOccupations slotStats + 1,
                              last24hOccupations :=
                                (if log_timestamp lg \<ge> last24Hours
                                 then last24hOccupations slotStats + 1
                                 else last24hOccupations slotStats),
                              last7dOccupations :=
                                (if log_timestamp lg \<ge> last7Days
                                 then last7dOccupations slotStats + 1
                                 else last7dOccupations slotStats) \<rparr>
                          else slotStats);
                    s2 = (if newState lg = Some False \<and> durationTruthy lg
                          then s1 \<lparr> totalDuration := totalDuration s1 + the (duration lg) \<rparr>
                          else s1)
                in u(log_deviceId lg \<mapsto> m(log_slotId lg \<mapsto> s2)))))"

definition average :: "slotStats \<Rightarrow> slotStats" where
  "average stats =
     (if totalOccupations stats > 0
      then stats \<lparr> averageDuration :=
             jsRound (of_int (totalDuration stats) / of_int (totalOccupations stats)) \<rparr>
      else stats)"

definition slotUsageStats :: "time \<Rightarrow> state \<Rightarrow> usage" where
  "slotUsageStats now st =
     (let last24Hours = now - 24 * 60 * 60 * 1000;
          last7Days = now - 7 * 24 * 60 * 60 * 1000;
          u0 = foldl initDevice Map.empty (currentStatus st);
          u1 = foldl (countLog last24Hours last7Days) u0 (slotHistory st)
      in (\<lambda>dev. map_option (\<lambda>m sid. map_option average (m sid)) (u1 dev)))"

record change =
  ch_deviceId :: string
  ch_slotId :: int
  ch_change :: string
  ch_previousState :: string
  ch_timestamp :: time
  ch_duration :: "int option"

definition stateName :: "bool option \<Rightarrow> string" where
  "stateName b = (if b = Some True then ''occupied'' else ''available'')"

definition changeOf :: "historyLog \<Rightarrow> change" where
  "changeOf lg =
     \<lparr> ch_deviceId = log_deviceId lg,
       ch_slotId = log_slotId lg,
       ch_change = stateName (newState lg),
       ch_previousState = stateName (previousState lg),
       ch_timestamp = log_timestamp lg,
       ch_duration = (if durationTruthy lg
                      then Some (jsRound (of_int (the (duration lg)) / 1000 / 60))
                      else None) \<rparr>"

text \<open>\<open>slotHistory.slice(-50).reverse().map(...)\<close>.\<close>

definition recentChanges :: "state \<Rightarrow> change list" where
  "recentChanges st =
     map changeOf (rev (drop (length (slotHistory st) - 50) (slotHistory st)))"

text \<open>
  The hour of day. \<open>server.js\<close> calls \<open>getHours()\<close>, the hour in the time zone of the
  host: \<open>zone t\<close> is the offset of that zone from UTC at the instant \<open>t\<close>, in
  milliseconds, which a zone with daylight saving time changes twice a year. The
  variant with \<open>convertToWIB\<close> adds seven hours itself and calls \<open>getUTCHours()\<close>.
\<close>

definition getUTCHours :: "time \<Rightarrow> nat" where
  "getUTCHours t = nat ((t div (60 * 60 * 1000)) mod 24)"

definition getHours :: "(time \<Rightarrow> int) \<Rightarrow> time \<Rightarrow> nat" where
  "getHours zone t = getUTCHours (t + zone t)"


record bucket =
  hour :: nat
  occupations :: int
  releases :: int


datatype error = TypeError

text \<open>
  \<open>server.js\<close>: the loop that seeds a bucket for the hour of each of the last 24 hours,
  and the scan of the events of the last 24 hours. The scan reads
  \<open>hourlyPattern[hour].occupations\<close> with no test, which throws on an hour that has no
  bucket; the \<open>catch\<close> of the handler answers that with status 500. The loop writes
  the bucket of an hour anew each time it meets the hour.
\<close>

definition seedHourly :: "(time \<Rightarrow> int) \<Rightarrow> time \<Rightarrow> (nat \<rightharpoonup> bucket)" where
  "seedHourly zone now =
     foldl (\<lambda>m i. let h = getHours zone (now - int i * 60 * 60 * 1000)
                  in m(h \<mapsto> \<lparr> hour = h, occupations = 0, releases = 0 \<rparr>))
       Map.empty [0..<24]"

fun scanHourly ::
  "(time \<Rightarrow> int) \<Rightarrow> (nat \<rightharpoonup> bucket) \<Rightarrow> historyLog list \<Rightarrow> error + (nat \<rightharpoonup> bucket)" where
  "scanHourly zone m [] = Inr m"
| "scanHourly zone m (lg # logs) =
     (let h = getHours zone (log_timestamp lg)
      in case m h of
           None \<Rightarrow> Inl TypeError
         | Some b \<Rightarrow>
             scanHourly zone
               (m(h \<mapsto> (if newState lg = Some True
                         then b \<lparr> occupations := occupations b + 1 \<rparr>
                         else b \<lparr> releases := releases b + 1 \<rparr>)))
               logs)"

definition inLast24Hours :: "time \<Rightarrow> historyLog \<Rightarrow> bool" where
  "inLast24Hours now lg = (log_timestamp lg \<ge> now - 24 * 60 * 60 * 1000)"

text \<open>
  \<open>Object.values(hourlyPattern).sort((a, b) => a.hour - b.hour)\<close>: every key is an hour
  below 24 and is the \<open>hour\<close> of its bucket, so the sorted values are the buckets in the
  order of their keys.
\<close>

definition hourlyPattern :: "(time \<Rightarrow> int) \<Rightarrow> time \<Rightarrow> state \<Rightarrow> error + bucket list" where
  "hourlyPattern zone now st =
     (case scanHourly zone (seedHourly zone now) (filter (inLast24Hours now) (slotHistory st)) of
        Inl e \<Rightarrow> Inl e
      | Inr m \<Rightarrow> Inr (List.map_filter m [0..<24]))"





record systemStats =
  totalDevices :: int
  sys_totalSlots :: int
  totalOccupied :: int
  totalAvailable :: int
  overallOccupancyRate :: rate
  totalHistoryRecords :: int
  last24hChanges :: int
  last7dChanges :: int

definition systemStatsOf :: "time \<Rightarrow> state \<Rightarrow> systemStats" where
  "systemStatsOf now st =
     (let cs = currentStatus st;
          tot = foldl (\<lambda>sum device. sum + cs_totalSlots device) 0 cs;
          occ = foldl (\<lambda>sum device. sum + occupiedSlots device) 0 cs
      in \<lparr> totalDevices = int (length (parkingData st)),
           sys_totalSlots = tot,
           totalOccupied = occ,
           totalAvailable = foldl (\<lambda>sum device. sum + cs_availableSlots device) 0 cs,
           overallOccupancyRate =
             (if tot > 0 then RateFixed (toFixed1 (of_int occ / of_int tot * 100))
              else RateZero),
           totalHistoryRecords = int (length (slotHistory st)),
           last24hChanges = int (length (filter (inLast24Hours now) (slotHistory st))),
           last7dChanges =
             int (length (filter (\<lambda>lg. log_timestamp lg \<ge> now - 7 * 24 * 60 * 60 * 1000)
                            (slotHistory st))) \<rparr>)"

record dashboardData =
  dd_systemStats :: systemStats
  dd_currentStatus :: "deviceStatus list"
  dd_slotUsageStats :: usage
  dd_recentChanges :: "change list"
  dd_hourlyPattern :: "bucket list"
  dd_lastUpdated :: time

text \<open>The handler: \<open>Inl\<close> is the answer of its \<open>catch\<close>, status 500.\<close>

definition dashboard :: "(time \<Rightarrow> int) \<Rightarrow> time \<Rightarrow> state \<Rightarrow> error + dashboardData" where
  "dashboard zone now st =
     (case hourlyPattern zone now st of
        Inl e \<Rightarrow> Inl e
      | Inr hp \<Rightarrow>
          Inr \<lparr> dd_systemStats = systemStatsOf now st,
                dd_currentStatus = currentStatus st,
                dd_slotUsageStats = slotUsageStats now st,
                dd_recentChanges = recentChanges st,
                dd_hourlyPattern = hp,
                dd_lastUpdated = now \<rparr>)"

section \<open>Vocabulary of the properties\<close>

text \<open>
  The slots a request is normalised to, its \<open>processedSlots\<close>, do not depend on the
  state: \<open>objectBranch\<close> says which branch the handler takes, \<open>mkSlot\<close> is the slot that
  branch builds, \<open>available\<close> the count it makes, and \<open>stored\<close> the report the handler
  writes for a request it accepts.
\<close>

definition objectBranch :: "slot_in list \<Rightarrow> bool" where
  "objectBranch sl = (case sl of [] \<Rightarrow> False | s0 # ss \<Rightarrow> isSlotObject s0)"

definition mkSlot :: "request \<Rightarrow> slot_in list \<Rightarrow> nat \<Rightarrow> slot_in \<Rightarrow> slot" where
  "mkSlot req sl = (if objectBranch sl then slotDataA req else slotDataB req)"

definition normalized :: "request \<Rightarrow> slot list" where
  "normalized req =
     (case req_slots req of
        None \<Rightarrow> []
      | Some sl \<Rightarrow> map (\<lambda>(i, s). mkSlot req sl i s) (zip [0..<length sl] sl))"

definition available :: "request \<Rightarrow> int" where
  "available req =
     (case req_slots req of
        None \<Rightarrow> 0
      | Some sl \<Rightarrow> int (length (filter (if objectBranch sl then notOccupied else isZero) sl)))"

definition stored :: "request \<Rightarrow> string \<Rightarrow> deviceData" where
  "stored req dev =
     \<lparr> deviceId = dev, dev_timestamp = req_timestamp req, wifiStatus = req_wifiStatus req,
       slots = normalized req, availableSlots = available req,
       totalSlots = int (length (normalized req)), lastUpdate = now_store req \<rparr>"

text \<open>A report sent at the instant \<open>t\<close>, and a request with no device id.\<close>

definition report :: "string \<Rightarrow> slot_in list \<Rightarrow> time \<Rightarrow> request" where
  "report dev sl t =
     \<lparr> req_deviceId = Some dev, req_timestamp = None, req_wifiStatus = None,
       req_slots = Some sl, x_forwarded_for = None, connection_remoteAddress = None,
       socket_remoteAddress = None, connection_socket = None,
       now_slot = (\<lambda>i. t), now_log = (\<lambda>i. t), now_dur = (\<lambda>i. t),
       now_store = t, now_response = t \<rparr>"

definition anonymous :: "slot_in list \<Rightarrow> time \<Rightarrow> request" where
  "anonymous sl t = (report [] sl t) \<lparr> req_deviceId := None \<rparr>"

text \<open>
  The events of one slot of one device, in the order of the log, and what it is for
  them to alternate: no two neighbours have the same \<open>newState\<close>.
\<close>

definition pairEvents :: "string \<Rightarrow> int \<Rightarrow> historyLog list \<Rightarrow> historyLog list" where
  "pairEvents dev sid hist = filter (\<lambda>h. log_deviceId h = dev \<and> log_slotId h = sid) hist"

fun alternates :: "historyLog list \<Rightarrow> bool" where
  "alternates (a # b # rest) = (newState a \<noteq> newState b \<and> alternates (b # rest))"
| "alternates rest = True"

text \<open>
  A request keeps the slots when it is refused, or when the ids of its slots are
  pairwise distinct and every slot of the device's stored report is among them.
\<close>

definition keepsSlots :: "state \<Rightarrow> request \<Rightarrow> bool" where
  "keepsSlots st req =
     (case req_deviceId req of
        None \<Rightarrow> True
      | Some dev \<Rightarrow>
          dev = [] \<or>
          (distinct (map slot_id (normalized req)) \<and>
           list_all (\<lambda>p. slot_id p \<in> set (map slot_id (normalized req)))
             (previousSlotsOf st dev)))"

fun keepsSlotsRun :: "nat \<Rightarrow> state \<Rightarrow> request list \<Rightarrow> bool" where
  "keepsSlotsRun cap st [] = True"
| "keepsSlotsRun cap st (r # rs) =
     (keepsSlots st r \<and> keepsSlotsRun cap (fst (postParkingStatus cap st r)) rs)"

text \<open>
  A report of the device \<open>dev\<close> repeats the stored one when its slots carry the same ids
  and the same \<open>occupied\<close>, position by position.
\<close>

definition idOccupied :: "slot \<Rightarrow> int \<times> bool option" where
  "idOccupied s = (slot_id s, occupied s)"

definition repeatsStored :: "state \<Rightarrow> string \<Rightarrow> request \<Rightarrow> bool" where
  "repeatsStored st dev req =
     (req_deviceId req = Some dev \<and>
      map idOccupied (normalized req) = map idOccupied (previousSlotsOf st dev))"

fun repeatsRun :: "nat \<Rightarrow> state \<Rightarrow> string \<Rightarrow> request list \<Rightarrow> bool" where
  "repeatsRun cap st dev [] = True"
| "repeatsRun cap st dev (r # rs) =
     (repeatsStored st dev r \<and> distinct (map slot_id (normalized r)) \<and>
      repeatsRun cap (fst (postParkingStatus cap st r)) dev rs)"

text \<open>
  An answer is structured when it is an object with a boolean \<open>success\<close> and with
  \<open>data\<close> or \<open>error\<close>.
\<close>

definition structured :: "json \<Rightarrow> bool" where
  "structured j =
     (case j of
        JObj kvs \<Rightarrow>
          (case map_of kvs ''success'' of
             Some (JBool b) \<Rightarrow> ''data'' \<in> set (map fst kvs) \<or> ''error'' \<in> set (map fst kvs)
           | other \<Rightarrow> False)
      | other \<Rightarrow> False)"

text \<open>
  A host zone of one offset, and the offset of America/New_York around 1 November
  2026, when its clocks go back one hour at 06:00 UTC.
\<close>

definition fixedZone :: "int \<Rightarrow> time \<Rightarrow> int" where
  "fixedZone offset t = offset"


text \<open>The slots of a stored report whose \<open>occupied\<close> is \<open>false\<close>, counted.\<close>

definition freeCount :: "deviceData \<Rightarrow> int" where
  "freeCount d = int (length (filter (\<lambda>s. occupied s = Some False) (slots d)))"

text \<open>
  The occupancy a list of slots holds for a slot id (the one \<open>find\<close> meets first), the
  table of them that a state holds, and what it is for such a table to track a log:
  the events of every slot alternate, and a slot that has events has an entry in the
  table, which is the \<open>newState\<close> of its last event.
\<close>

definition current :: "slot list \<Rightarrow> int \<Rightarrow> bool option option" where
  "current sl sid = map_option occupied (find (\<lambda>q. slot_id q = sid) sl)"

definition tracks :: "(string \<Rightarrow> int \<Rightarrow> bool option option) \<Rightarrow> historyLog list \<Rightarrow> bool" where
  "tracks c h =
     ((\<forall>d s. alternates (pairEvents d s h)) \<and>
      (\<forall>d s. pairEvents d s h \<noteq> [] \<longrightarrow> c d s = Some (newState (last (pairEvents d s h)))))"

definition view :: "state \<Rightarrow> string \<Rightarrow> int \<Rightarrow> bool option option" where
  "view st d = current (previousSlotsOf st d)"

definition setSlot :: "(int \<Rightarrow> bool option option) \<Rightarrow> slot \<Rightarrow> (int \<Rightarrow> bool option option)" where
  "setSlot f x = f(slot_id x := Some (occupied x))"

text \<open>Every stored report counts no more available slots than slots.\<close>

definition countsOk :: "state \<Rightarrow> bool" where
  "countsOk st = (\<forall>kv \<in> set (parkingData st).
      0 \<le> availableSlots (snd kv) \<and> availableSlots (snd kv) \<le> totalSlots (snd kv))"



section \<open>Lemmas\<close>

text \<open>The definitions a concrete run is evaluated with.\<close>

lemmas handler_defs =
  run_def initial_def report_def anonymous_def postParkingStatus_def processSlots_def Let_def
  slotDataA_def slotDataB_def checkChanged_def previousSlotsOf_def logSlotChange_def
  newLog_def lastOccupied_def madeOccupied_def getClientIP_def js_or_def cap_server_def
  isZero_def notOccupied_def pairEvents_def

lemmas request_defs =
  keepsSlots_def normalized_def mkSlot_def objectBranch_def repeatsStored_def idOccupied_def

subsection \<open>The handler in closed form\<close>

lemma mapSlots_fst:
  "fst (mapSlots mk chk i sl h) = map (\<lambda>(k, s). mk k s) (zip [i..<i + length sl] sl)"
proof (induction sl arbitrary: i h)
  case Nil
  then show ?case by simp
next
  case (Cons s ss)
  have "[i..<i + length (s # ss)] = i # [Suc i..<Suc i + length ss]"
    using upt_conv_Cons [of i "Suc (i + length ss)"] by simp
  then show ?case using Cons [of "Suc i"] by (simp add: Let_def)
qed

lemma processSlots_eq:
  "processSlots cap st req dev =
     (case req_slots req of
        None \<Rightarrow> (0, 0, [], slotHistory st)
      | Some sl \<Rightarrow>
          (int (length (filter (if objectBranch sl then notOccupied else isZero) sl)),
           int (length sl),
           mapSlots (mkSlot req sl)
             (checkChanged cap req dev (previousSlotsOf st dev)) 0 sl (slotHistory st)))"
  by (simp add: processSlots_def objectBranch_def mkSlot_def Let_def del: mapSlots.simps(2)
        split: option.splits list.splits)

lemma processSlots_hist:
  "snd (snd (snd (processSlots cap st req dev))) =
     (case req_slots req of
        None \<Rightarrow> slotHistory st
      | Some sl \<Rightarrow> snd (mapSlots (mkSlot req sl)
             (checkChanged cap req dev (previousSlotsOf st dev)) 0 sl (slotHistory st)))"
  by (simp add: processSlots_eq del: mapSlots.simps split: option.splits)

lemma processSlots_slots:
  "fst (snd (snd (processSlots cap st req dev))) = normalized req"
  by (simp add: processSlots_eq normalized_def mapSlots_fst del: mapSlots.simps
        split: option.splits)

lemma processSlots_available:
  "fst (processSlots cap st req dev) = available req"
  by (simp add: processSlots_eq available_def del: mapSlots.simps split: option.splits)

lemma processSlots_total:
  "fst (snd (processSlots cap st req dev)) = int (length (normalized req))"
  by (simp add: processSlots_eq normalized_def del: mapSlots.simps split: option.splits)

lemma post_refused:
  "req_deviceId req = None \<or> req_deviceId req = Some [] \<Longrightarrow>
     postParkingStatus cap st req = (st, badRequest)"
  by (auto simp: postParkingStatus_def)

lemma post_accepted:
  assumes "req_deviceId req = Some dev" and "dev \<noteq> []"
  shows "postParkingStatus cap st req =
           (\<lparr> parkingData = AList.update dev (stored req dev) (parkingData st),
              slotHistory = snd (snd (snd (processSlots cap st req dev))) \<rparr>,
            updated dev (available req) (int (length (normalized req))) (now_response req))"
proof -
  obtain av tot ps h where p: "processSlots cap st req dev = (av, tot, ps, h)"
    by (metis prod_cases4)
  have "av = available req" "tot = int (length (normalized req))" "ps = normalized req"
    using processSlots_available [of cap st req dev] processSlots_total [of cap st req dev]
      processSlots_slots [of cap st req dev] p by simp_all
  then show ?thesis using assms p by (simp add: postParkingStatus_def stored_def)
qed

lemma post_hist:
  "slotHistory (fst (postParkingStatus cap st req)) =
     (case req_deviceId req of
        None \<Rightarrow> slotHistory st
      | Some dev \<Rightarrow> if dev = [] then slotHistory st
                   else snd (snd (snd (processSlots cap st req dev))))"
  by (simp add: postParkingStatus_def split: option.splits prod.splits)

lemma post_parkingData:
  "parkingData (fst (postParkingStatus cap st req)) =
     (case req_deviceId req of
        None \<Rightarrow> parkingData st
      | Some dev \<Rightarrow> if dev = [] then parkingData st
                   else AList.update dev (stored req dev) (parkingData st))"
proof (cases "req_deviceId req")
  case None
  then show ?thesis by (simp add: post_refused)
next
  case (Some dev)
  then show ?thesis by (cases "dev = []") (simp_all add: post_refused post_accepted)
qed

lemma run_Cons: "run cap st (r # rs) = run cap (fst (postParkingStatus cap st r)) rs"
  by (simp add: run_def)

subsection \<open>The cap\<close>

lemma logSlotChange_drop:
  assumes "length h \<le> cap"
  shows "logSlotChange cap t1 t2 d s p n ip h =
           drop (Suc (length h) - cap) (h @ [newLog t1 t2 d s p n ip h])"
proof (cases "length h = cap")
  case True
  then show ?thesis by (cases h) (auto simp: logSlotChange_def Let_def drop_Suc)
next
  case False
  with assms have "length h < cap" by simp
  then show ?thesis by (simp add: logSlotChange_def Let_def)
qed

lemma logSlotChange_length:
  "length h \<le> cap \<Longrightarrow> length (logSlotChange cap t1 t2 d s p n ip h) \<le> cap"
  by (simp add: logSlotChange_def Let_def)

lemma checkChanged_length:
  "length h \<le> cap \<Longrightarrow> length (checkChanged cap req dev prev i sd h) \<le> cap"
  by (simp add: checkChanged_def logSlotChange_length split: option.splits)

lemma mapSlots_length:
  "length h \<le> cap \<Longrightarrow>
     length (snd (mapSlots mk (checkChanged cap req dev prev) i sl h)) \<le> cap"
  by (induction sl arbitrary: i h) (simp_all add: Let_def checkChanged_length)

lemma post_length:
  "length (slotHistory st) \<le> cap \<Longrightarrow>
     length (slotHistory (fst (postParkingStatus cap st req))) \<le> cap"
  by (simp add: post_hist processSlots_hist mapSlots_length del: mapSlots.simps
        split: option.splits)

lemma run_length:
  "length (slotHistory st) \<le> cap \<Longrightarrow> length (slotHistory (run cap st reqs)) \<le> cap"
  unfolding run_def
  by (induction reqs arbitrary: st) (simp_all add: post_length)

subsection \<open>What the handler stores\<close>

lemma map_of_update_same: "map_of (AList.update k v al) k = Some v"
  by (simp add: update_conv')

lemma post_stored:
  assumes "req_deviceId req = Some dev" and "dev \<noteq> []"
  shows "map_of (parkingData (fst (postParkingStatus cap st req))) dev = Some (stored req dev)"
  by (simp add: post_accepted [OF assms] map_of_update_same)

lemma objectBranch_nums: "\<not> objectBranch (map SlotNum vs)"
  by (cases vs) (simp_all add: objectBranch_def)

lemma normalized_nums:
  assumes "req_slots req = Some (map SlotNum vs)"
  shows "normalized req =
           map (\<lambda>(i, v). \<lparr> slot_id = int i + 1, occupied = Some (v = 1),
                            slot_lastUpdate = now_slot req i \<rparr>) (zip [0..<length vs] vs)"
  using assms
  by (simp add: normalized_def mkSlot_def objectBranch_nums slotDataB_def zip_map2 split_def)

lemma available_nums:
  assumes "req_slots req = Some (map SlotNum vs)"
  shows "available req = int (length (filter (\<lambda>v. v = 0) vs))"
  using assms
  by (simp add: available_def objectBranch_nums isZero_def filter_map comp_def)

lemma free_nums:
  assumes "length ks = length vs" and "set vs \<subseteq> {0, 1}"
  shows "length (filter (\<lambda>s. occupied s = Some False)
           (map (\<lambda>(i, v). \<lparr> slot_id = int i + 1, occupied = Some (v = (1::int)),
                             slot_lastUpdate = f i \<rparr>) (zip ks vs)))
         = length (filter (\<lambda>v. v = 0) vs)"
  using assms by (induction ks vs rule: list_induct2) auto

lemma update_set:
  "kv \<in> set (AList.update k v al) \<Longrightarrow> kv = (k, v) \<or> kv \<in> set al"
  by (induction al) (auto split: if_splits)

lemma available_bounds: "0 \<le> available req \<and> available req \<le> int (length (normalized req))"
  by (simp add: available_def normalized_def split: option.splits)

lemma post_countsOk:
  assumes "countsOk st"
  shows "countsOk (fst (postParkingStatus cap st req))"
proof -
  have "0 \<le> availableSlots (stored req dev) \<and>
        availableSlots (stored req dev) \<le> totalSlots (stored req dev)" for dev
    using available_bounds [of req] by (simp add: stored_def)
  then show ?thesis
    using assms unfolding countsOk_def post_parkingData
    by (auto split: option.splits dest!: update_set)
qed

lemma run_countsOk: "countsOk st \<Longrightarrow> countsOk (run cap st reqs)"
  unfolding run_def
  by (induction reqs arbitrary: st) (simp_all add: post_countsOk)

subsection \<open>The duration of an event\<close>

lemma find_rev_last:
  assumes "\<exists>x \<in> set xs. P x"
  shows "\<exists>i < length xs. P (xs ! i) \<and> (\<forall>j. i < j \<and> j < length xs \<longrightarrow> \<not> P (xs ! j)) \<and>
           find P (rev xs) = Some (xs ! i)"
  using assms
proof (induction xs rule: rev_induct)
  case Nil
  then show ?case by simp
next
  case (snoc x xs)
  show ?case
  proof (cases "P x")
    case True
    have "length xs < length (xs @ [x]) \<and> P ((xs @ [x]) ! length xs) \<and>
          (\<forall>j. length xs < j \<and> j < length (xs @ [x]) \<longrightarrow> \<not> P ((xs @ [x]) ! j)) \<and>
          find P (rev (xs @ [x])) = Some ((xs @ [x]) ! length xs)"
      using True by auto
    then show ?thesis by blast
  next
    case False
    with snoc.prems have "\<exists>y \<in> set xs. P y" by auto
    from snoc.IH [OF this] obtain i where i: "i < length xs" "P (xs ! i)"
      "\<forall>j. i < j \<and> j < length xs \<longrightarrow> \<not> P (xs ! j)" "find P (rev xs) = Some (xs ! i)"
      by blast
    have "\<forall>j. i < j \<and> j < length (xs @ [x]) \<longrightarrow> \<not> P ((xs @ [x]) ! j)"
    proof (intro allI impI)
      fix j assume j: "i < j \<and> j < length (xs @ [x])"
      show "\<not> P ((xs @ [x]) ! j)"
      proof (cases "j < length xs")
        case True
        then show ?thesis using i(3) j by (simp add: nth_append)
      next
        case False
        then have "j = length xs" using j by simp
        then show ?thesis using \<open>\<not> P x\<close> by simp
      qed
    qed
    moreover have "find P (rev (xs @ [x])) = Some ((xs @ [x]) ! i)"
      using False i by (simp add: nth_append)
    ultimately show ?thesis using i by (intro exI [of _ i]) (simp add: nth_append)
  qed
qed

lemma find_None_iff': "(find P xs = None) = (\<not> (\<exists>x \<in> set xs. P x))"
  by (induction xs) auto

lemma lastOccupied_None:
  "(lastOccupied dev sid hist = None) = (\<not> (\<exists>h \<in> set hist. madeOccupied dev sid h))"
  by (simp add: lastOccupied_def find_None_iff')

lemma newLog_duration_set:
  "(duration (newLog t_log t_dur dev sid prev new ip hist) \<noteq> None) =
     (prev = Some True \<and> new = Some False \<and> (\<exists>h \<in> set hist. madeOccupied dev sid h))"
proof (cases "lastOccupied dev sid hist")
  case None
  then show ?thesis using lastOccupied_None [of dev sid hist] by (simp add: newLog_def Let_def)
next
  case (Some lo)
  then show ?thesis using lastOccupied_None [of dev sid hist] by (simp add: newLog_def Let_def)
qed

lemma newLog_duration_value:
  assumes "duration (newLog t_log t_dur dev sid prev new ip hist) \<noteq> None"
  shows "\<exists>i < length hist. madeOccupied dev sid (hist ! i) \<and>
           (\<forall>j. i < j \<and> j < length hist \<longrightarrow> \<not> madeOccupied dev sid (hist ! j)) \<and>
           duration (newLog t_log t_dur dev sid prev new ip hist) =
             Some (t_dur - log_timestamp (hist ! i))"
proof -
  from assms have c: "prev = Some True" "new = Some False"
    "\<exists>h \<in> set hist. madeOccupied dev sid h"
    using newLog_duration_set [of t_log t_dur dev sid prev new ip hist] by simp_all
  from find_rev_last [OF c(3)] obtain i where i: "i < length hist"
    "madeOccupied dev sid (hist ! i)"
    "\<forall>j. i < j \<and> j < length hist \<longrightarrow> \<not> madeOccupied dev sid (hist ! j)"
    "find (madeOccupied dev sid) (rev hist) = Some (hist ! i)"
    by blast
  have "duration (newLog t_log t_dur dev sid prev new ip hist) =
          Some (t_dur - log_timestamp (hist ! i))"
    using c i(4) by (simp add: newLog_def lastOccupied_def Let_def)
  with i show ?thesis by blast
qed

lemma logSlotChange_last:
  "0 < cap \<Longrightarrow> last (logSlotChange cap t_log t_dur dev sid prev new ip hist) =
     newLog t_log t_dur dev sid prev new ip hist"
  by (cases hist) (simp_all add: logSlotChange_def Let_def)

lemma logSlotChange_nonempty:
  "0 < cap \<Longrightarrow> logSlotChange cap t_log t_dur dev sid prev new ip hist \<noteq> []"
  by (cases hist) (simp_all add: logSlotChange_def Let_def)

lemma find_append':
  "find P (xs @ ys) = (case find P xs of None \<Rightarrow> find P ys | Some x \<Rightarrow> Some x)"
  by (induction xs) simp_all

lemma lastOccupied_after:
  assumes "madeOccupied dev sid e" and "list_all (\<lambda>h. \<not> madeOccupied dev sid h) others"
  shows "lastOccupied dev sid (h1 @ e # others) = Some e"
proof -
  have "find (madeOccupied dev sid) (rev others) = None"
    using assms(2) by (simp add: find_None_iff' list_all_iff)
  then show ?thesis using assms(1)
    by (simp add: lastOccupied_def find_append')
qed

subsection \<open>Rounding\<close>

lemma toFixed1_nonneg:
  assumes "0 \<le> x"
  shows "0 \<le> toFixed1 x"
proof -
  have "0 \<le> x * 10 + 1 / 2" using assms by simp
  then show ?thesis using assms by (simp add: toFixed1_def)
qed

lemma toFixed1_le:
  assumes "0 \<le> x" and "x \<le> 100"
  shows "toFixed1 x \<le> 1000"
proof -
  have "x * 10 + 1 / 2 < 1001" using assms by simp
  then have "\<lfloor>x * 10 + 1 / 2\<rfloor> < 1001" by (simp add: floor_less_iff)
  then show ?thesis using assms by (simp add: toFixed1_def)
qed

lemma toFixed1_near:
  assumes "0 \<le> x"
  shows "\<bar>of_int (toFixed1 x) / 10 - x\<bar> \<le> 1 / 20"
proof -
  define n :: rat where "n = of_int \<lfloor>x * 10 + 1 / 2\<rfloor>"
  have l: "n \<le> x * 10 + 1 / 2" unfolding n_def by (rule of_int_floor_le)
  have u: "x * 10 + 1 / 2 < n + 1"
    unfolding n_def using floor_correct [of "x * 10 + 1 / 2"] by simp
  have "n / 10 - x \<le> 1 / 20" "- (1 / 20) \<le> n / 10 - x" using l u by linarith+
  then have "\<bar>n / 10 - x\<bar> \<le> 1 / 20" by linarith
  then have "\<bar>of_int \<lfloor>x * 10 + 1 / 2\<rfloor> / 10 - x\<bar> \<le> 1 / 20" unfolding n_def .
  then show ?thesis using assms by (simp add: toFixed1_def)
qed

lemma statusOf_rate:
  assumes "0 \<le> availableSlots d" and "availableSlots d \<le> totalSlots d"
  shows "occupiedSlots (statusOf d) = cs_totalSlots (statusOf d) - cs_availableSlots (statusOf d) \<and>
         0 \<le> rateValue (occupancyRate (statusOf d)) \<and>
         rateValue (occupancyRate (statusOf d)) \<le> 100 \<and>
         (cs_totalSlots (statusOf d) = 0 \<longrightarrow> occupancyRate (statusOf d) = RateZero) \<and>
         (cs_totalSlots (statusOf d) \<noteq> 0 \<longrightarrow>
            (\<exists>n. occupancyRate (statusOf d) = RateFixed n) \<and>
            \<bar>rateValue (occupancyRate (statusOf d)) -
               of_int (occupiedSlots (statusOf d)) / of_int (cs_totalSlots (statusOf d)) * 100\<bar>
              \<le> 1 / 20)"
proof (cases "totalSlots d = 0")
  case True
  then show ?thesis by (simp add: statusOf_def)
next
  case False
  with assms have pos: "0 < totalSlots d" by simp
  let ?x = "(of_int (totalSlots d - availableSlots d) / of_int (totalSlots d) * 100) :: rat"
  define q :: rat where "q = of_int (totalSlots d - availableSlots d) / of_int (totalSlots d)"
  have "(of_int (totalSlots d - availableSlots d) :: rat) \<le> of_int (totalSlots d)"
    using assms by simp
  then have q1: "q \<le> 1"
    using pos unfolding q_def by (simp add: divide_le_eq)
  have q0: "0 \<le> q"
    using assms pos unfolding q_def by simp
  have "0 \<le> q * 100" "q * 100 \<le> 100" using q0 q1 by simp_all
  then have x: "0 \<le> ?x" "?x \<le> 100" unfolding q_def by simp_all
  have "0 \<le> (of_int (toFixed1 ?x) :: rat) / 10" "(of_int (toFixed1 ?x) :: rat) / 10 \<le> 100"
    using toFixed1_nonneg [OF x(1)] toFixed1_le [OF x] by simp_all
  then show ?thesis using pos toFixed1_near [OF x(1)] by (simp add: statusOf_def)
qed

subsection \<open>Durations that are zero\<close>

lemma zero_duration_falsy:
  "duration e = Some 0 \<Longrightarrow> \<not> durationTruthy e"
  "\<not> durationTruthy (e \<lparr> duration := None \<rparr>)"
  by (simp_all add: durationTruthy_def)

lemma changeOf_zero:
  "duration e = Some 0 \<Longrightarrow> changeOf (e \<lparr> duration := None \<rparr>) = changeOf e"
  by (simp add: changeOf_def zero_duration_falsy)

lemma countLog_zero:
  "duration e = Some 0 \<Longrightarrow> countLog a b u (e \<lparr> duration := None \<rparr>) = countLog a b u e"
  by (simp add: countLog_def zero_duration_falsy Let_def split: option.splits)

lemma inLast24Hours_zero:
  "inLast24Hours now (e \<lparr> duration := None \<rparr>) = inLast24Hours now e"
  by (simp add: inLast24Hours_def)

lemma scanHourly_zero:
  "scanHourly zone m (l1 @ e \<lparr> duration := None \<rparr> # l2) = scanHourly zone m (l1 @ e # l2)"
proof (induction l1 arbitrary: m)
  case Nil
  show ?case by (simp add: Let_def split: option.splits)
next
  case (Cons x l1)
  show ?case
  proof (cases "m (getHours zone (log_timestamp x))")
    case None
    then show ?thesis by (simp add: Let_def)
  next
    case (Some b)
    then show ?thesis by (simp only: append_Cons scanHourly.simps Let_def option.case Cons.IH)
  qed
qed

lemma hourlyPattern_zero:
  "hourlyPattern zone now (st \<lparr> slotHistory := h1 @ e \<lparr> duration := None \<rparr> # h2 \<rparr>) =
   hourlyPattern zone now (st \<lparr> slotHistory := h1 @ e # h2 \<rparr>)"
  by (simp add: hourlyPattern_def inLast24Hours_zero scanHourly_zero)

lemma recentChanges_map:
  "recentChanges st =
     rev (drop (length (slotHistory st) - 50) (map changeOf (slotHistory st)))"
  by (simp add: recentChanges_def rev_map drop_map)

lemma recentChanges_zero:
  assumes "duration e = Some 0"
  shows "recentChanges (st \<lparr> slotHistory := h1 @ e \<lparr> duration := None \<rparr> # h2 \<rparr>) =
         recentChanges (st \<lparr> slotHistory := h1 @ e # h2 \<rparr>)"
proof -
  have "map changeOf (h1 @ e \<lparr> duration := None \<rparr> # h2) = map changeOf (h1 @ e # h2)"
    using changeOf_zero [OF assms] by simp
  moreover have "length (h1 @ e \<lparr> duration := None \<rparr> # h2) = length (h1 @ e # h2)"
    by simp
  moreover have "slotHistory (st \<lparr> slotHistory := x \<rparr>) = x" for x
    by simp
  ultimately show ?thesis
    unfolding recentChanges_map by (simp only:)
qed

lemma currentStatus_history:
  "currentStatus (st \<lparr> slotHistory := h \<rparr>) = currentStatus st"
  by (simp add: currentStatus_def)

lemma slotUsageStats_zero:
  assumes "duration e = Some 0"
  shows "slotUsageStats now (st \<lparr> slotHistory := h1 @ e \<lparr> duration := None \<rparr> # h2 \<rparr>) =
         slotUsageStats now (st \<lparr> slotHistory := h1 @ e # h2 \<rparr>)"
  by (simp add: slotUsageStats_def currentStatus_def countLog_zero [OF assms] Let_def)

lemma systemStatsOf_zero:
  "systemStatsOf now (st \<lparr> slotHistory := h1 @ e \<lparr> duration := None \<rparr> # h2 \<rparr>) =
   systemStatsOf now (st \<lparr> slotHistory := h1 @ e # h2 \<rparr>)"
  by (simp add: systemStatsOf_def currentStatus_def inLast24Hours_zero Let_def)

subsection \<open>The hours of a day\<close>
























subsection \<open>Reports that change nothing\<close>

lemma mapSlots_quiet:
  assumes "\<forall>x \<in> set (fst (mapSlots mk chk i sl h)). \<forall>k. chk k x h = h"
  shows "snd (mapSlots mk chk i sl h) = h"
  using assms
proof (induction sl arbitrary: i)
  case Nil
  then show ?case by simp
next
  case (Cons s ss)
  have f: "fst (mapSlots mk chk i (s # ss) h) = mk i s # fst (mapSlots mk chk (Suc i) ss (chk i (mk i s) h))"
    by (simp add: Let_def)
  have c: "chk i (mk i s) h = h" using Cons.prems unfolding f by simp
  have "\<forall>x \<in> set (fst (mapSlots mk chk (Suc i) ss h)). \<forall>k. chk k x h = h"
    using Cons.prems unfolding f c by simp
  from Cons.IH [OF this] show ?case by (simp add: Let_def c)
qed

lemma find_distinct:
  assumes "distinct (map slot_id prev)" and "p \<in> set prev"
  shows "find (\<lambda>q. slot_id q = slot_id p) prev = Some p"
  using assms
proof (induction prev)
  case Nil
  then show ?case by simp
next
  case (Cons a prev)
  then show ?case by (cases "a = p") (auto simp: image_iff)
qed

lemma checkChanged_same:
  assumes "distinct (map slot_id prev)" and "idOccupied x \<in> idOccupied ` set prev"
  shows "checkChanged cap req dev prev k x h = h"
proof -
  from assms(2) obtain p where p: "p \<in> set prev" "slot_id p = slot_id x" "occupied p = occupied x"
    by (auto simp: idOccupied_def)
  have "find (\<lambda>q. slot_id q = slot_id x) prev = Some p"
    using find_distinct [OF assms(1) p(1)] p(2) by simp
  then show ?thesis using p(3) by (simp add: checkChanged_def)
qed

lemma slot_ids_of: "map slot_id xs = map fst (map idOccupied xs)"
  by (simp add: idOccupied_def comp_def)

lemma post_repeats:
  assumes "repeatsStored st dev req" and "distinct (map slot_id (normalized req))"
    and "dev \<noteq> []"
  shows "slotHistory (fst (postParkingStatus cap st req)) = slotHistory st"
proof -
  have dev: "req_deviceId req = Some dev"
    and eq: "map idOccupied (normalized req) = map idOccupied (previousSlotsOf st dev)"
    using assms(1) by (simp_all add: repeatsStored_def)
  have d: "distinct (map slot_id (previousSlotsOf st dev))"
    using assms(2) eq by (simp add: slot_ids_of)
  have s: "idOccupied ` set (normalized req) = idOccupied ` set (previousSlotsOf st dev)"
    using eq by (metis set_map)
  show ?thesis
  proof (cases "req_slots req")
    case None
    then show ?thesis using dev assms(3) by (simp add: post_hist processSlots_hist)
  next
    case (Some sl)
    let ?chk = "checkChanged cap req dev (previousSlotsOf st dev)"
    let ?m = "mapSlots (mkSlot req sl) ?chk 0 sl (slotHistory st)"
    have n: "normalized req = fst ?m"
      using Some by (simp add: normalized_def mapSlots_fst)
    have "\<forall>x \<in> set (fst ?m). \<forall>k. ?chk k x (slotHistory st) = slotHistory st"
      using s checkChanged_same [OF d] unfolding n [symmetric] by blast
    from mapSlots_quiet [OF this] show ?thesis
      using Some dev assms(3) by (simp add: post_hist processSlots_hist del: mapSlots.simps)
  qed
qed

lemma post_first:
  assumes "map_of (parkingData st) dev = None" and "req_deviceId req = Some dev" and "dev \<noteq> []"
  shows "slotHistory (fst (postParkingStatus cap st req)) = slotHistory st"
proof (cases "req_slots req")
  case None
  then show ?thesis using assms by (simp add: post_hist processSlots_hist)
next
  case (Some sl)
  have p: "previousSlotsOf st dev = []" using assms(1) by (simp add: previousSlotsOf_def)
  have "\<forall>x \<in> set (fst (mapSlots (mkSlot req sl) (checkChanged cap req dev []) 0 sl (slotHistory st))).
          \<forall>k. checkChanged cap req dev [] k x (slotHistory st) = slotHistory st"
    by (simp add: checkChanged_def)
  from mapSlots_quiet [OF this] show ?thesis
    using Some assms(2,3) p by (simp add: post_hist processSlots_hist del: mapSlots.simps)
qed

lemma run_repeats:
  assumes "repeatsRun cap st dev reqs" and "dev \<noteq> []"
  shows "slotHistory (run cap st reqs) = slotHistory st \<and>
         (reqs \<noteq> [] \<longrightarrow> map_of (parkingData (run cap st reqs)) dev = Some (stored (last reqs) dev))"
  using assms(1)
proof (induction reqs arbitrary: st)
  case Nil
  then show ?case by (simp add: run_def)
next
  case (Cons r rs)
  let ?st1 = "fst (postParkingStatus cap st r)"
  have r: "repeatsStored st dev r" "distinct (map slot_id (normalized r))"
    "repeatsRun cap ?st1 dev rs"
    using Cons.prems by simp_all
  have dev: "req_deviceId r = Some dev" using r(1) by (simp add: repeatsStored_def)
  have h1: "slotHistory ?st1 = slotHistory st"
    by (rule post_repeats [OF r(1,2) assms(2)])
  have s1: "map_of (parkingData ?st1) dev = Some (stored r dev)"
    by (rule post_stored [OF dev assms(2)])
  from Cons.IH [OF r(3)] have ih: "slotHistory (run cap ?st1 rs) = slotHistory ?st1"
    "rs \<noteq> [] \<Longrightarrow> map_of (parkingData (run cap ?st1 rs)) dev = Some (stored (last rs) dev)"
    by simp_all
  show ?case
  proof (cases "rs = []")
    case True
    then show ?thesis using h1 s1 by (simp add: run_def)
  next
    case False
    then show ?thesis using ih h1 by (simp add: run_Cons)
  qed
qed

subsection \<open>Alternation\<close>

lemma alternates_tail: "alternates (a # ys) \<Longrightarrow> alternates ys"
  by (cases ys) simp_all

lemma alternates_snoc:
  "alternates (xs @ [e]) = (alternates xs \<and> (xs = [] \<or> newState (last xs) \<noteq> newState e))"
proof (induction xs)
  case Nil
  show ?case by simp
next
  case (Cons a xs)
  then show ?case by (cases xs) auto
qed

lemma pairEvents_snoc:
  "pairEvents d s (h @ [e]) =
     pairEvents d s h @ (if log_deviceId e = d \<and> log_slotId e = s then [e] else [])"
  by (simp add: pairEvents_def)

lemma tracks_tl:
  assumes "tracks c h"
  shows "tracks c (tl h)"
proof (cases h)
  case Nil
  then show ?thesis using assms by simp
next
  case (Cons a r)
  have "alternates (pairEvents d s r) \<and>
        (pairEvents d s r \<noteq> [] \<longrightarrow> c d s = Some (newState (last (pairEvents d s r))))" for d s
  proof (cases "log_deviceId a = d \<and> log_slotId a = s")
    case True
    then have p: "pairEvents d s h = a # pairEvents d s r"
      using Cons by (simp add: pairEvents_def)
    have "alternates (a # pairEvents d s r)"
      using assms p unfolding tracks_def by metis
    moreover have "c d s = Some (newState (last (a # pairEvents d s r)))"
      using assms p unfolding tracks_def by (metis list.distinct(1))
    ultimately show ?thesis using alternates_tail by auto
  next
    case False
    then have "pairEvents d s h = pairEvents d s r"
      using Cons by (auto simp: pairEvents_def)
    then show ?thesis using assms unfolding tracks_def by metis
  qed
  then show ?thesis using Cons by (simp add: tracks_def)
qed

lemma tracks_fresh:
  assumes "tracks c h" and "c dev sid = None"
  shows "tracks (c(dev := (c dev)(sid := v))) h"
proof -
  have e: "pairEvents dev sid h = []"
    using assms unfolding tracks_def by (metis option.distinct(1))
  show ?thesis
    unfolding tracks_def
  proof (intro conjI allI impI)
    fix d s show "alternates (pairEvents d s h)"
      using assms(1) by (simp add: tracks_def)
  next
    fix d s assume n: "pairEvents d s h \<noteq> []"
    then have "\<not> (d = dev \<and> s = sid)" using e by auto
    then have "(c(dev := (c dev)(sid := v))) d s = c d s" by auto
    then show "(c(dev := (c dev)(sid := v))) d s = Some (newState (last (pairEvents d s h)))"
      using assms(1) n by (simp add: tracks_def)
  qed
qed

lemma tracks_log:
  assumes "tracks c h" and "c dev sid = Some old" and "old \<noteq> new"
    and "log_deviceId e = dev" and "log_slotId e = sid" and "newState e = new"
  shows "tracks (c(dev := (c dev)(sid := Some new))) (h @ [e])"
  unfolding tracks_def
proof (intro conjI allI impI)
  fix d s
  show "alternates (pairEvents d s (h @ [e]))"
  proof (cases "d = dev \<and> s = sid")
    case True
    have "pairEvents dev sid h \<noteq> [] \<Longrightarrow> newState (last (pairEvents dev sid h)) = old"
      using assms(1,2) unfolding tracks_def by (metis option.inject)
    moreover have "alternates (pairEvents dev sid h)"
      using assms(1) by (simp add: tracks_def)
    ultimately show ?thesis
      using True assms(3,4,5,6) by (auto simp: pairEvents_snoc alternates_snoc)
  next
    case False
    then show ?thesis
      using assms(1,4,5) by (auto simp: pairEvents_snoc tracks_def)
  qed
next
  fix d s assume n: "pairEvents d s (h @ [e]) \<noteq> []"
  show "(c(dev := (c dev)(sid := Some new))) d s =
          Some (newState (last (pairEvents d s (h @ [e]))))"
  proof (cases "d = dev \<and> s = sid")
    case True
    then show ?thesis using assms(4,5,6) by (simp add: pairEvents_snoc)
  next
    case False
    then have p: "pairEvents d s (h @ [e]) = pairEvents d s h"
      using assms(4,5) by (auto simp: pairEvents_snoc)
    have "(c(dev := (c dev)(sid := Some new))) d s = c d s" using False by auto
    then show ?thesis using assms(1) n p by (simp add: tracks_def)
  qed
qed

lemma tracks_logSlotChange:
  assumes "tracks c h" and "c dev sid = Some old" and "old \<noteq> new"
  shows "tracks (c(dev := (c dev)(sid := Some new)))
           (logSlotChange cap t1 t2 dev sid old new ip h)"
proof -
  let ?e = "newLog t1 t2 dev sid old new ip h"
  have "log_deviceId ?e = dev" "log_slotId ?e = sid" "newState ?e = new"
    by (simp_all add: newLog_def Let_def split: option.splits)
  from tracks_log [OF assms this] have t: "tracks (c(dev := (c dev)(sid := Some new))) (h @ [?e])" .
  show ?thesis
    unfolding logSlotChange_def Let_def
    using t tracks_tl [OF t] by simp
qed

lemma tracks_checkChanged:
  assumes "tracks c h" and "c dev (slot_id x) = current prev (slot_id x)"
  shows "tracks (c(dev := setSlot (c dev) x)) (checkChanged cap req dev prev k x h)"
proof (cases "find (\<lambda>p. slot_id p = slot_id x) prev")
  case None
  then have "c dev (slot_id x) = None" using assms(2) by (simp add: current_def)
  from tracks_fresh [OF assms(1) this] show ?thesis
    using None by (simp add: checkChanged_def setSlot_def)
next
  case (Some p)
  then have c: "c dev (slot_id x) = Some (occupied p)" using assms(2) by (simp add: current_def)
  show ?thesis
  proof (cases "occupied p = occupied x")
    case True
    then have "(c dev)(slot_id x := Some (occupied x)) = c dev" using c by auto
    then have "c(dev := setSlot (c dev) x) = c" by (simp add: setSlot_def)
    then show ?thesis using assms(1) Some True by (simp add: checkChanged_def)
  next
    case False
    from tracks_logSlotChange [OF assms(1) c False]
    show ?thesis using Some False by (simp add: checkChanged_def setSlot_def)
  qed
qed

lemma tracks_mapSlots:
  assumes "tracks c h"
    and "distinct (map slot_id (fst (mapSlots mk (checkChanged cap req dev prev) i sl h)))"
    and "\<forall>x \<in> set (fst (mapSlots mk (checkChanged cap req dev prev) i sl h)).
           c dev (slot_id x) = current prev (slot_id x)"
  shows "tracks (c(dev := foldl setSlot (c dev)
                    (fst (mapSlots mk (checkChanged cap req dev prev) i sl h))))
           (snd (mapSlots mk (checkChanged cap req dev prev) i sl h))"
  using assms
proof (induction sl arbitrary: i h c)
  case Nil
  then show ?case by simp
next
  case (Cons s ss)
  let ?chk = "checkChanged cap req dev prev"
  let ?x = "mk i s"
  let ?h1 = "?chk i ?x h"
  let ?c1 = "c(dev := setSlot (c dev) ?x)"
  let ?rest = "fst (mapSlots mk ?chk (Suc i) ss ?h1)"
  have f: "fst (mapSlots mk ?chk i (s # ss) h) = ?x # ?rest"
    by (simp add: Let_def)
  have sn: "snd (mapSlots mk ?chk i (s # ss) h) = snd (mapSlots mk ?chk (Suc i) ss ?h1)"
    by (simp add: Let_def)
  have d: "slot_id ?x \<notin> slot_id ` set ?rest" "distinct (map slot_id ?rest)"
    using Cons.prems(2) unfolding f by simp_all
  have cx: "c dev (slot_id ?x) = current prev (slot_id ?x)"
    using Cons.prems(3) unfolding f by simp
  have t1: "tracks ?c1 ?h1"
    by (rule tracks_checkChanged [OF Cons.prems(1) cx])
  have c1: "\<forall>y \<in> set ?rest. ?c1 dev (slot_id y) = current prev (slot_id y)"
  proof
    fix y assume y: "y \<in> set ?rest"
    then have "slot_id y \<noteq> slot_id ?x" using d(1) by (metis imageI)
    moreover have "c dev (slot_id y) = current prev (slot_id y)"
      using Cons.prems(3) y unfolding f by simp
    ultimately show "?c1 dev (slot_id y) = current prev (slot_id y)"
      by (simp add: setSlot_def)
  qed
  from Cons.IH [OF t1 d(2) c1]
  have "tracks (?c1(dev := foldl setSlot (?c1 dev) ?rest))
          (snd (mapSlots mk ?chk (Suc i) ss ?h1))" .
  moreover have "?c1(dev := foldl setSlot (?c1 dev) ?rest) =
                 c(dev := foldl setSlot (c dev) (?x # ?rest))"
    by simp
  ultimately show ?case unfolding f sn by (simp only:)
qed

lemma foldl_setSlot:
  assumes "distinct (map slot_id xs)"
  shows "foldl setSlot f xs s =
           (case find (\<lambda>q. slot_id q = s) xs of None \<Rightarrow> f s | Some x \<Rightarrow> Some (occupied x))"
  using assms
proof (induction xs arbitrary: f)
  case Nil
  then show ?case by simp
next
  case (Cons x xs)
  have n: "slot_id x = s \<Longrightarrow> find (\<lambda>q. slot_id q = s) xs = None"
    using Cons.prems by (fastforce simp: find_None_iff image_iff)
  show ?case
    using Cons.IH [of "setSlot f x"] Cons.prems n
    by (auto simp: setSlot_def split: option.splits)
qed

lemma current_None: "(current sl s = None) = (s \<notin> slot_id ` set sl)"
  by (auto simp: current_def find_None_iff)

lemma foldl_setSlot_current:
  assumes "distinct (map slot_id xs)"
    and "list_all (\<lambda>p. slot_id p \<in> set (map slot_id xs)) prev"
  shows "foldl setSlot (current prev) xs = current xs"
proof
  fix s
  show "foldl setSlot (current prev) xs s = current xs s"
  proof (cases "find (\<lambda>q. slot_id q = s) xs")
    case None
    then have "s \<notin> slot_id ` set xs" by (auto simp: find_None_iff)
    then have "s \<notin> slot_id ` set prev" using assms(2) by (auto simp: list_all_iff)
    then have "current prev s = None" by (simp add: current_None)
    then show ?thesis using None by (simp add: foldl_setSlot [OF assms(1)] current_def)
  next
    case (Some x)
    then show ?thesis by (simp add: foldl_setSlot [OF assms(1)] current_def)
  qed
qed

lemma previousSlotsOf_post:
  assumes "req_deviceId req = Some dev" and "dev \<noteq> []"
  shows "previousSlotsOf (fst (postParkingStatus cap st req)) d =
           (if d = dev then normalized req else previousSlotsOf st d)"
  by (simp add: post_accepted [OF assms] previousSlotsOf_def update_conv' stored_def)

lemma view_post:
  assumes "req_deviceId req = Some dev" and "dev \<noteq> []"
  shows "view (fst (postParkingStatus cap st req)) = (view st)(dev := current (normalized req))"
  by (rule ext) (simp add: view_def previousSlotsOf_post [OF assms])

lemma tracks_processSlots:
  assumes "tracks (view st) (slotHistory st)"
    and "distinct (map slot_id (normalized req))"
  shows "tracks ((view st)(dev := foldl setSlot (view st dev) (normalized req)))
           (snd (snd (snd (processSlots cap st req dev))))"
proof (cases "req_slots req")
  case None
  then show ?thesis using assms(1)
    by (simp add: processSlots_hist normalized_def)
next
  case (Some sl)
  let ?m = "mapSlots (mkSlot req sl) (checkChanged cap req dev (previousSlotsOf st dev)) 0 sl
              (slotHistory st)"
  have n: "normalized req = fst ?m"
    using Some by (simp add: normalized_def mapSlots_fst)
  have h: "snd (snd (snd (processSlots cap st req dev))) = snd ?m"
    using Some by (simp add: processSlots_hist del: mapSlots.simps)
  have d: "distinct (map slot_id (fst ?m))" using assms(2) n by simp
  have c: "\<forall>x \<in> set (fst ?m).
             view st dev (slot_id x) = current (previousSlotsOf st dev) (slot_id x)"
    by (simp add: view_def)
  from tracks_mapSlots [OF assms(1) d c] show ?thesis
    unfolding n h .
qed

lemma tracks_post:
  assumes "tracks (view st) (slotHistory st)" and "keepsSlots st req"
  shows "tracks (view (fst (postParkingStatus cap st req)))
           (slotHistory (fst (postParkingStatus cap st req)))"
proof (cases "req_deviceId req = None \<or> req_deviceId req = Some []")
  case True
  then show ?thesis using assms(1) by (simp add: post_refused)
next
  case False
  then obtain dev where dev: "req_deviceId req = Some dev" "dev \<noteq> []" by auto
  from assms(2) dev have k: "distinct (map slot_id (normalized req))"
    "list_all (\<lambda>p. slot_id p \<in> set (map slot_id (normalized req))) (previousSlotsOf st dev)"
    by (simp_all add: keepsSlots_def)
  have "foldl setSlot (view st dev) (normalized req) = current (normalized req)"
    unfolding view_def by (rule foldl_setSlot_current [OF k])
  with tracks_processSlots [OF assms(1) k(1), of dev cap]
  have "tracks ((view st)(dev := current (normalized req)))
          (snd (snd (snd (processSlots cap st req dev))))"
    by simp
  moreover have "slotHistory (fst (postParkingStatus cap st req)) =
                 snd (snd (snd (processSlots cap st req dev)))"
    using dev by (simp add: post_hist)
  ultimately show ?thesis by (simp only: view_post [OF dev])
qed

lemma tracks_run:
  assumes "tracks (view st) (slotHistory st)" and "keepsSlotsRun cap st reqs"
  shows "tracks (view (run cap st reqs)) (slotHistory (run cap st reqs))"
  using assms
proof (induction reqs arbitrary: st)
  case Nil
  then show ?case by (simp add: run_def)
next
  case (Cons r rs)
  have "run cap st (r # rs) = run cap (fst (postParkingStatus cap st r)) rs"
    by (simp add: run_def)
  moreover have "tracks (view (fst (postParkingStatus cap st r)))
                   (slotHistory (fst (postParkingStatus cap st r)))"
    using Cons.prems by (intro tracks_post) simp_all
  ultimately show ?case using Cons.IH Cons.prems(2) by simp
qed

section \<open>The properties\<close>

text \<open>
  C1, as amended. Take any sequence of requests from the empty state in which every
  accepted report has pairwise distinct slot ids and leaves out no slot id of the
  report stored for its device. Then the events of any one slot of any one device, in
  the order of the log, alternate: no two neighbours have the same \<open>newState\<close>.
\<close>

theorem events_alternate:
  assumes "keepsSlotsRun cap initial reqs"
  shows "alternates (pairEvents dev sid (slotHistory (run cap initial reqs)))"
proof -
  have "tracks (view initial) (slotHistory initial)"
    by (simp add: tracks_def initial_def pairEvents_def)
  from tracks_run [OF this assms] show ?thesis by (simp add: tracks_def)
qed

theorem events_alternate_witness:
  "keepsSlotsRun cap_server initial
     [report ''D1'' [SlotNum 0, SlotNum 0] 10, report ''D1'' [SlotNum 1, SlotNum 0] 20,
      report ''D1'' [SlotNum 0, SlotNum 0] 30, report ''D1'' [SlotNum 1, SlotNum 1] 40] \<and>
   alternates (pairEvents ''D1'' 1 (slotHistory (run cap_server initial
     [report ''D1'' [SlotNum 0, SlotNum 0] 10, report ''D1'' [SlotNum 1, SlotNum 0] 20,
      report ''D1'' [SlotNum 0, SlotNum 0] 30, report ''D1'' [SlotNum 1, SlotNum 1] 40]))) \<and>
   map newState (pairEvents ''D1'' 1 (slotHistory (run cap_server initial
     [report ''D1'' [SlotNum 0, SlotNum 0] 10, report ''D1'' [SlotNum 1, SlotNum 0] 20,
      report ''D1'' [SlotNum 0, SlotNum 0] 30, report ''D1'' [SlotNum 1, SlotNum 1] 40]))) =
     [Some True, Some False, Some True]"
proof -
  have k: "keepsSlotsRun cap_server initial
     [report ''D1'' [SlotNum 0, SlotNum 0] 10, report ''D1'' [SlotNum 1, SlotNum 0] 20,
      report ''D1'' [SlotNum 0, SlotNum 0] 30, report ''D1'' [SlotNum 1, SlotNum 1] 40]"
    by (simp add: handler_defs request_defs upt_rec)
  have m: "map newState (pairEvents ''D1'' 1 (slotHistory (run cap_server initial
     [report ''D1'' [SlotNum 0, SlotNum 0] 10, report ''D1'' [SlotNum 1, SlotNum 0] 20,
      report ''D1'' [SlotNum 0, SlotNum 0] 30, report ''D1'' [SlotNum 1, SlotNum 1] 40]))) =
     [Some True, Some False, Some True]"
    by (simp add: handler_defs)
  show ?thesis using k m events_alternate [OF k, of "''D1''" 1] by simp
qed

text \<open>
  Without that condition the events of a slot need not alternate. A slot that leaves
  the report and comes back is recorded again with no event, so its next change repeats
  the \<open>newState\<close> of the last one; and a report that lists one slot id twice logs the
  same change twice.
\<close>

theorem events_repeat_newState:
  "map newState (pairEvents ''D1'' 1 (slotHistory (run cap_server initial
     [report ''D1'' [SlotNum 0] 10, report ''D1'' [SlotNum 1] 20, report ''D1'' [] 30,
      report ''D1'' [SlotNum 0] 40, report ''D1'' [SlotNum 1] 50]))) =
     [Some True, Some True] \<and>
   \<not> alternates (pairEvents ''D1'' 1 (slotHistory (run cap_server initial
     [report ''D1'' [SlotNum 0] 10, report ''D1'' [SlotNum 1] 20, report ''D1'' [] 30,
      report ''D1'' [SlotNum 0] 40, report ''D1'' [SlotNum 1] 50]))) \<and>
   map newState (pairEvents ''D1'' 1 (slotHistory (run cap_server initial
     [report ''D1'' [SlotObj (Some 1) (Some False) None] 10,
      report ''D1'' [SlotObj (Some 1) (Some True) None, SlotObj (Some 1) (Some True) None] 20]))) =
     [Some True, Some True] \<and>
   \<not> alternates (pairEvents ''D1'' 1 (slotHistory (run cap_server initial
     [report ''D1'' [SlotObj (Some 1) (Some False) None] 10,
      report ''D1'' [SlotObj (Some 1) (Some True) None, SlotObj (Some 1) (Some True) None] 20])))"
  by (simp add: handler_defs)

text \<open>
  C2. The event \<open>logSlotChange\<close> appends carries a duration exactly when its
  \<open>previousState\<close> is true, its \<open>newState\<close> is false and the log holds an earlier event of
  the same device and slot with \<open>newState\<close> true. The duration is then the clock read at
  that moment less the timestamp of the last such event in the log. So when a slot is
  made occupied at \<open>t1\<close> and made available at \<open>t2\<close>, with no other event in between that
  makes it occupied, the duration of the second event is \<open>t2 - t1\<close> (its two clock reads
  being the one instant \<open>t2\<close>).
\<close>

theorem duration_backfill:
  "(duration (newLog t_log t_dur dev sid prev new ip hist) \<noteq> None) =
     (prev = Some True \<and> new = Some False \<and> (\<exists>h \<in> set hist. madeOccupied dev sid h)) \<and>
   (duration (newLog t_log t_dur dev sid prev new ip hist) \<noteq> None \<longrightarrow>
      (\<exists>i < length hist. madeOccupied dev sid (hist ! i) \<and>
         (\<forall>j. i < j \<and> j < length hist \<longrightarrow> \<not> madeOccupied dev sid (hist ! j)) \<and>
         duration (newLog t_log t_dur dev sid prev new ip hist) =
           Some (t_dur - log_timestamp (hist ! i)))) \<and>
   log_timestamp (newLog t_log t_dur dev sid prev new ip hist) = t_log \<and>
   (0 < cap \<longrightarrow>
      last (logSlotChange cap t_log t_dur dev sid prev new ip hist) =
        newLog t_log t_dur dev sid prev new ip hist) \<and>
   (0 < cap \<and> list_all (\<lambda>h. \<not> madeOccupied dev sid h) others \<longrightarrow>
      duration (newLog t2 t2 dev sid (Some True) (Some False) ip2
                 (logSlotChange cap t1 t1' dev sid p1 (Some True) ip1 hist @ others)) =
        Some (t2 - t1))"
proof -
  have ts: "log_timestamp (newLog t_log t_dur dev sid prev new ip hist) = t_log"
    by (simp add: newLog_def Let_def split: option.splits)
  have sc: "duration (newLog t2 t2 dev sid (Some True) (Some False) ip2
                 (logSlotChange cap t1 t1' dev sid p1 (Some True) ip1 hist @ others)) =
        Some (t2 - t1)"
    if c: "0 < cap" and o: "list_all (\<lambda>h. \<not> madeOccupied dev sid h) others"
  proof -
    let ?e = "newLog t1 t1' dev sid p1 (Some True) ip1 hist"
    let ?h1 = "logSlotChange cap t1 t1' dev sid p1 (Some True) ip1 hist"
    have e: "madeOccupied dev sid ?e" "log_timestamp ?e = t1"
      by (simp_all add: newLog_def madeOccupied_def)
    obtain front where f: "?h1 = front @ [?e]"
      using logSlotChange_last [OF c, of t1 t1' dev sid p1 "Some True" ip1 hist]
        logSlotChange_nonempty [OF c, of t1 t1' dev sid p1 "Some True" ip1 hist]
      by (metis append_butlast_last_id)
    have "lastOccupied dev sid (?h1 @ others) = Some ?e"
      unfolding f using lastOccupied_after [OF e(1) o, of front] by simp
    then show ?thesis using e(2) by (simp add: newLog_def Let_def)
  qed
  show ?thesis
    using newLog_duration_set [of t_log t_dur dev sid prev new ip hist]
      newLog_duration_value [of t_log t_dur dev sid prev new ip hist]
      logSlotChange_last [of cap t_log t_dur dev sid prev new ip hist] ts sc
    by simp
qed

theorem duration_backfill_witness:
  "duration (newLog 500 501 ''D1'' 1 (Some True) (Some False) None
      [\<lparr> log_deviceId = ''D1'', log_slotId = 1, previousState = Some False,
          newState = Some True, log_timestamp = 100, ipAddress = None, duration = None \<rparr>,
       \<lparr> log_deviceId = ''D1'', log_slotId = 2, previousState = Some False,
          newState = Some True, log_timestamp = 300, ipAddress = None, duration = None \<rparr>])
     = Some 401 \<and>
   duration (newLog 500 501 ''D1'' 3 (Some True) (Some False) None
      [\<lparr> log_deviceId = ''D1'', log_slotId = 1, previousState = Some False,
          newState = Some True, log_timestamp = 100, ipAddress = None, duration = None \<rparr>,
       \<lparr> log_deviceId = ''D1'', log_slotId = 2, previousState = Some False,
          newState = Some True, log_timestamp = 300, ipAddress = None, duration = None \<rparr>])
     = None \<and>
   duration (newLog 900 900 ''D1'' 1 (Some True) (Some False) None
      (logSlotChange cap_server 100 100 ''D1'' 1 (Some False) (Some True) None []
       @ [\<lparr> log_deviceId = ''D1'', log_slotId = 2, previousState = Some False,
             newState = Some True, log_timestamp = 300, ipAddress = None, duration = None \<rparr>]))
     = Some 800"
proof -
  let ?a = "\<lparr> log_deviceId = ''D1'', log_slotId = 1, previousState = Some False,
          newState = Some True, log_timestamp = 100, ipAddress = None, duration = None \<rparr>"
  let ?b = "\<lparr> log_deviceId = ''D1'', log_slotId = 2, previousState = Some False,
          newState = Some True, log_timestamp = 300, ipAddress = None, duration = None \<rparr>"
  have m: "madeOccupied ''D1'' 1 ?a" "\<not> madeOccupied ''D1'' 1 ?b"
    "\<not> madeOccupied ''D1'' 3 ?a" "\<not> madeOccupied ''D1'' 3 ?b"
    by (simp_all add: madeOccupied_def)
  have c: "0 < cap_server \<and> list_all (\<lambda>h. \<not> madeOccupied ''D1'' 1 h) [?b]"
    using m by (simp add: cap_server_def)
  note t1 = duration_backfill [of 500 501 "''D1''" 1 "Some True" "Some False" None "[?a, ?b]"
      cap_server "[?b]" 900 None 100 100 "Some False" None]
  note t3 = duration_backfill [of 500 501 "''D1''" 3 "Some True" "Some False" None "[?a, ?b]"
      cap_server "[]" 900 None 100 100 "Some False" None]
  note t4 = duration_backfill [of 500 501 "''D1''" 1 "Some True" "Some False" None "[]"
      cap_server "[?b]" 900 None 100 100 "Some False" None]
  have d1: "duration (newLog 500 501 ''D1'' 1 (Some True) (Some False) None [?a, ?b]) \<noteq> None"
    using t1 m by simp
  then obtain i where i: "i < length [?a, ?b]" "madeOccupied ''D1'' 1 ([?a, ?b] ! i)"
    "duration (newLog 500 501 ''D1'' 1 (Some True) (Some False) None [?a, ?b])
       = Some (501 - log_timestamp ([?a, ?b] ! i))"
    using t1 by blast
  from i(1,2) m have "i = 0" by (cases i) auto
  with i(3) have r1: "duration (newLog 500 501 ''D1'' 1 (Some True) (Some False) None [?a, ?b])
       = Some 401" by simp
  have r3: "duration (newLog 500 501 ''D1'' 3 (Some True) (Some False) None [?a, ?b]) = None"
    using t3 m by simp
  have r4: "duration (newLog 900 900 ''D1'' 1 (Some True) (Some False) None
      (logSlotChange cap_server 100 100 ''D1'' 1 (Some False) (Some True) None [] @ [?b]))
     = Some 800"
    using t4 c by simp
  show ?thesis using r1 r3 r4 by simp
qed

text \<open>
  C3. The history log never holds more events than the cap: after every sequence of
  requests from the empty state its length is at most the cap, and an append to a log
  within the cap gives a log within the cap, which is the old log with the new event at
  its end, less its oldest event when the old log was full. This holds for every cap,
  10000 and 5000 among them.
\<close>

theorem history_capped_fifo:
  "length (slotHistory (run cap initial reqs)) \<le> cap \<and>
   (length h \<le> cap \<longrightarrow>
      length (logSlotChange cap t1 t2 d s p n ip h) \<le> cap \<and>
      logSlotChange cap t1 t2 d s p n ip h =
        drop (Suc (length h) - cap) (h @ [newLog t1 t2 d s p n ip h]))"
proof -
  have "length (slotHistory (run cap initial reqs)) \<le> cap"
    by (rule run_length) (simp add: initial_def)
  then show ?thesis
    using logSlotChange_length [of h cap t1 t2 d s p n ip]
      logSlotChange_drop [of h cap t1 t2 d s p n ip] by simp
qed

theorem history_capped_fifo_witness:
  "slotHistory (run 2 initial
     [report ''D1'' [SlotNum 0] 10, report ''D1'' [SlotNum 1] 20, report ''D1'' [SlotNum 0] 30,
      report ''D1'' [SlotNum 1] 40]) =
     [\<lparr> log_deviceId = ''D1'', log_slotId = 1, previousState = Some True,
         newState = Some False, log_timestamp = 30, ipAddress = None, duration = Some 10 \<rparr>,
      \<lparr> log_deviceId = ''D1'', log_slotId = 1, previousState = Some False,
         newState = Some True, log_timestamp = 40, ipAddress = None, duration = None \<rparr>] \<and>
   logSlotChange 2 50 51 ''D1'' 1 (Some True) (Some False) None
     [\<lparr> log_deviceId = ''D1'', log_slotId = 1, previousState = Some True,
         newState = Some False, log_timestamp = 30, ipAddress = None, duration = Some 10 \<rparr>,
      \<lparr> log_deviceId = ''D1'', log_slotId = 1, previousState = Some False,
         newState = Some True, log_timestamp = 40, ipAddress = None, duration = None \<rparr>] =
     [\<lparr> log_deviceId = ''D1'', log_slotId = 1, previousState = Some False,
         newState = Some True, log_timestamp = 40, ipAddress = None, duration = None \<rparr>,
      \<lparr> log_deviceId = ''D1'', log_slotId = 1, previousState = Some True,
         newState = Some False, log_timestamp = 50, ipAddress = None, duration = Some 11 \<rparr>]"
proof -
  let ?rs = "[report ''D1'' [SlotNum 0] 10, report ''D1'' [SlotNum 1] 20,
              report ''D1'' [SlotNum 0] 30, report ''D1'' [SlotNum 1] 40]"
  let ?e30 = "\<lparr> log_deviceId = ''D1'', log_slotId = 1, previousState = Some True,
         newState = Some False, log_timestamp = 30, ipAddress = None, duration = Some 10 \<rparr>"
  let ?e40 = "\<lparr> log_deviceId = ''D1'', log_slotId = 1, previousState = Some False,
         newState = Some True, log_timestamp = 40, ipAddress = None, duration = None \<rparr>"
  have a: "slotHistory (run 2 initial ?rs) = [?e30, ?e40]"
    by (simp add: handler_defs)
  note t = history_capped_fifo [of 2 ?rs "[?e30, ?e40]" 50 51 "''D1''" 1 "Some True"
      "Some False" None]
  have "logSlotChange 2 50 51 ''D1'' 1 (Some True) (Some False) None [?e30, ?e40] =
          drop (Suc (length [?e30, ?e40]) - 2)
            ([?e30, ?e40] @ [newLog 50 51 ''D1'' 1 (Some True) (Some False) None [?e30, ?e40]])"
    using t by simp
  then have b: "logSlotChange 2 50 51 ''D1'' 1 (Some True) (Some False) None [?e30, ?e40] =
          [?e40, \<lparr> log_deviceId = ''D1'', log_slotId = 1, previousState = Some True,
                   newState = Some False, log_timestamp = 50, ipAddress = None,
                   duration = Some 11 \<rparr>]"
    by (simp add: newLog_def lastOccupied_def madeOccupied_def)
  show ?thesis using a b by simp
qed

text \<open>
  C4, as amended. A report whose \<open>slots\<close> is an array of integers is stored with one
  slot per position, whose id is the position counted from 1 and whose \<open>occupied\<close> says
  whether the value is 1; \<open>totalSlots\<close> is the length of the array, and
  \<open>availableSlots\<close> is the number of values that are 0. When every value is 0 or 1 that
  is the number of stored slots whose \<open>occupied\<close> is false.
\<close>

theorem simple_array_normalized:
  assumes "req_deviceId req = Some dev" and "dev \<noteq> []"
    and "req_slots req = Some (map SlotNum vs)"
  shows "\<exists>d. map_of (parkingData (fst (postParkingStatus cap st req))) dev = Some d \<and>
           slots d = map (\<lambda>(i, v). \<lparr> slot_id = int i + 1, occupied = Some (v = 1),
                                      slot_lastUpdate = now_slot req i \<rparr>)
                       (zip [0..<length vs] vs) \<and>
           totalSlots d = int (length vs) \<and>
           availableSlots d = int (length (filter (\<lambda>v. v = 0) vs)) \<and>
           (set vs \<subseteq> {0, 1} \<longrightarrow> availableSlots d = freeCount d)"
proof -
  let ?d = "stored req dev"
  have n: "slots ?d = map (\<lambda>(i, v). \<lparr> slot_id = int i + 1, occupied = Some (v = 1),
                                       slot_lastUpdate = now_slot req i \<rparr>)
                        (zip [0..<length vs] vs)"
    by (simp add: stored_def normalized_nums [OF assms(3)])
  have t: "totalSlots ?d = int (length vs)"
    by (simp add: stored_def normalized_nums [OF assms(3)])
  have a: "availableSlots ?d = int (length (filter (\<lambda>v. v = 0) vs))"
    by (simp add: stored_def available_nums [OF assms(3)])
  have f: "set vs \<subseteq> {0, 1} \<Longrightarrow> availableSlots ?d = freeCount ?d"
    using free_nums [of "[0..<length vs]" vs "now_slot req"] by (simp add: freeCount_def n a)
  show ?thesis
    using post_stored [OF assms(1,2), of cap st] n t a f by blast
qed

theorem simple_array_normalized_witness:
  "\<exists>d. map_of (parkingData (fst (postParkingStatus cap_server initial
             (report ''D2'' [SlotNum 0, SlotNum 1, SlotNum 0] 7)))) ''D2'' = Some d \<and>
        map slot_id (slots d) = [1, 2, 3] \<and>
        map occupied (slots d) = [Some False, Some True, Some False] \<and>
        totalSlots d = 3 \<and> availableSlots d = 2 \<and> freeCount d = 2"
proof -
  have r: "req_deviceId (report ''D2'' [SlotNum 0, SlotNum 1, SlotNum 0] 7) = Some ''D2''"
    "''D2'' \<noteq> []"
    "req_slots (report ''D2'' [SlotNum 0, SlotNum 1, SlotNum 0] 7) = Some (map SlotNum [0, 1, 0])"
    by (simp_all add: report_def)
  have u: "[0..<length [0, 1, 0 :: int]] = [0, 1, 2]"
    by code_simp
  show ?thesis
    using simple_array_normalized [OF r, of cap_server initial]
    unfolding u by auto
qed

text \<open>
  For a value other than 0 and 1 the two counts differ: the report \<open>[2]\<close> is stored with
  one slot whose \<open>occupied\<close> is false and with \<open>availableSlots\<close> 0.
\<close>

theorem simple_array_other_value:
  "map_of (parkingData (fst (postParkingStatus cap_server initial
       (report ''D2'' [SlotNum 2] 7)))) ''D2'' =
     Some \<lparr> deviceId = ''D2'', dev_timestamp = None, wifiStatus = None,
            slots = [\<lparr> slot_id = 1, occupied = Some False, slot_lastUpdate = 7 \<rparr>],
            availableSlots = 0, totalSlots = 1, lastUpdate = 7 \<rparr> \<and>
   freeCount \<lparr> deviceId = ''D2'', dev_timestamp = None, wifiStatus = None,
            slots = [\<lparr> slot_id = 1, occupied = Some False, slot_lastUpdate = 7 \<rparr>],
            availableSlots = 0, totalSlots = 1, lastUpdate = 7 \<rparr> = 1"
  by (simp add: postParkingStatus_def report_def processSlots_def Let_def slotDataB_def
        checkChanged_def previousSlotsOf_def initial_def freeCount_def isZero_def)

text \<open>
  C5, as amended. The first report of a device appends no event and is stored. From
  any state, a sequence of reports of one device, each with pairwise distinct slot ids
  and each with the ids and the \<open>occupied\<close> of the stored report, position by position,
  leaves the history log as it is, and the last of them is the report stored.
\<close>

theorem unchanged_reports_log_nothing:
  "(map_of (parkingData st) dev = None \<and> req_deviceId req = Some dev \<and> dev \<noteq> [] \<longrightarrow>
      slotHistory (fst (postParkingStatus cap st req)) = slotHistory st \<and>
      map_of (parkingData (fst (postParkingStatus cap st req))) dev = Some (stored req dev)) \<and>
   (dev \<noteq> [] \<and> repeatsRun cap st dev reqs \<longrightarrow>
      slotHistory (run cap st reqs) = slotHistory st \<and>
      (reqs \<noteq> [] \<longrightarrow>
         map_of (parkingData (run cap st reqs)) dev = Some (stored (last reqs) dev)))"
  using post_first [of st dev req cap] post_stored [of req dev cap st]
    run_repeats [of cap st dev reqs]
  by blast

theorem unchanged_reports_log_nothing_witness:
  "slotHistory (fst (postParkingStatus cap_server initial
       (report ''D1'' [SlotObj (Some 1) (Some False) None, SlotObj (Some 2) (Some True) None] 10))) = [] \<and>
   repeatsRun cap_server
     (run cap_server initial
        [report ''D1'' [SlotObj (Some 1) (Some False) None, SlotObj (Some 2) (Some True) None] 10,
         report ''D1'' [SlotObj (Some 1) (Some True) None, SlotObj (Some 2) (Some True) None] 20])
     ''D1''
     [report ''D1'' [SlotObj (Some 1) (Some True) None, SlotObj (Some 2) (Some True) None] 30,
      report ''D1'' [SlotObj (Some 1) (Some True) None, SlotObj (Some 2) (Some True) None] 40] \<and>
   length (slotHistory (run cap_server
     (run cap_server initial
        [report ''D1'' [SlotObj (Some 1) (Some False) None, SlotObj (Some 2) (Some True) None] 10,
         report ''D1'' [SlotObj (Some 1) (Some True) None, SlotObj (Some 2) (Some True) None] 20])
     [report ''D1'' [SlotObj (Some 1) (Some True) None, SlotObj (Some 2) (Some True) None] 30,
      report ''D1'' [SlotObj (Some 1) (Some True) None, SlotObj (Some 2) (Some True) None] 40])) = 1 \<and>
   map_option lastUpdate (map_of (parkingData (run cap_server
     (run cap_server initial
        [report ''D1'' [SlotObj (Some 1) (Some False) None, SlotObj (Some 2) (Some True) None] 10,
         report ''D1'' [SlotObj (Some 1) (Some True) None, SlotObj (Some 2) (Some True) None] 20])
     [report ''D1'' [SlotObj (Some 1) (Some True) None, SlotObj (Some 2) (Some True) None] 30,
      report ''D1'' [SlotObj (Some 1) (Some True) None, SlotObj (Some 2) (Some True) None] 40])) ''D1'')
     = Some 40"
proof -
  let ?a = "report ''D1'' [SlotObj (Some 1) (Some False) None, SlotObj (Some 2) (Some True) None] 10"
  let ?b = "report ''D1'' [SlotObj (Some 1) (Some True) None, SlotObj (Some 2) (Some True) None] 20"
  let ?c = "report ''D1'' [SlotObj (Some 1) (Some True) None, SlotObj (Some 2) (Some True) None] 30"
  let ?d = "report ''D1'' [SlotObj (Some 1) (Some True) None, SlotObj (Some 2) (Some True) None] 40"
  have f: "map_of (parkingData initial) ''D1'' = None \<and> req_deviceId ?a = Some ''D1'' \<and> ''D1'' \<noteq> []"
    by (simp add: initial_def report_def)
  have r: "''D1'' \<noteq> [] \<and> repeatsRun cap_server (run cap_server initial [?a, ?b]) ''D1'' [?c, ?d]"
    by (simp add: handler_defs request_defs upt_rec)
  have l: "length (slotHistory (run cap_server initial [?a, ?b])) = 1"
    by (simp add: handler_defs)
  have s: "lastUpdate (stored (last [?c, ?d]) ''D1'') = 40"
    by (simp add: stored_def report_def)
  note t1 = unchanged_reports_log_nothing [of initial "''D1''" ?a cap_server "[]"]
  note t2 = unchanged_reports_log_nothing [of "run cap_server initial [?a, ?b]" "''D1''" ?a
      cap_server "[?c, ?d]"]
  have "slotHistory (fst (postParkingStatus cap_server initial ?a)) = []"
    using t1 f by (simp add: initial_def)
  moreover have "slotHistory (run cap_server (run cap_server initial [?a, ?b]) [?c, ?d]) =
      slotHistory (run cap_server initial [?a, ?b])"
    and "map_of (parkingData (run cap_server (run cap_server initial [?a, ?b]) [?c, ?d])) ''D1'' =
      Some (stored (last [?c, ?d]) ''D1'')"
    using t2 r by simp_all
  ultimately show ?thesis using r l s by simp
qed

text \<open>
  A report that lists a slot id twice, free and occupied, repeats the stored report
  when it is sent again, and yet the second sending appends an event: the occupied
  entry is compared with the free one, the first of the id in the stored report.
\<close>

theorem repeated_report_logs:
  "slotHistory (run cap_server initial
     [report ''D1'' [SlotObj (Some 1) (Some False) None, SlotObj (Some 1) (Some True) None] 10]) = [] \<and>
   repeatsStored
     (run cap_server initial
        [report ''D1'' [SlotObj (Some 1) (Some False) None, SlotObj (Some 1) (Some True) None] 10])
     ''D1''
     (report ''D1'' [SlotObj (Some 1) (Some False) None, SlotObj (Some 1) (Some True) None] 20) \<and>
   length (slotHistory (run cap_server initial
     [report ''D1'' [SlotObj (Some 1) (Some False) None, SlotObj (Some 1) (Some True) None] 10,
      report ''D1'' [SlotObj (Some 1) (Some False) None, SlotObj (Some 1) (Some True) None] 20])) = 1"
  by (simp add: handler_defs request_defs upt_rec)




text \<open>
  C7. In the current status of every state reached from the empty one, each device has
  \<open>occupiedSlots = totalSlots - availableSlots\<close>, and its \<open>occupancyRate\<close> lies between
  0 and 100. When \<open>totalSlots\<close> is 0 the rate is the number 0. Otherwise it is
  a number of one decimal, as \<open>toFixed(1)\<close> prints, within a twentieth of
  \<open>occupiedSlots / totalSlots * 100\<close>.
\<close>

theorem occupancy_rate_bounded:
  "\<forall>c \<in> set (currentStatus (run cap initial reqs)).
     occupiedSlots c = cs_totalSlots c - cs_availableSlots c \<and>
     0 \<le> rateValue (occupancyRate c) \<and> rateValue (occupancyRate c) \<le> 100 \<and>
     (cs_totalSlots c = 0 \<longrightarrow> occupancyRate c = RateZero) \<and>
     (cs_totalSlots c \<noteq> 0 \<longrightarrow>
        (\<exists>n. occupancyRate c = RateFixed n) \<and>
        \<bar>rateValue (occupancyRate c) -
           of_int (occupiedSlots c) / of_int (cs_totalSlots c) * 100\<bar> \<le> 1 / 20)"
proof
  fix c assume "c \<in> set (currentStatus (run cap initial reqs))"
  then obtain kv where kv: "kv \<in> set (parkingData (run cap initial reqs))"
    and c: "c = statusOf (snd kv)"
    by (auto simp: currentStatus_def)
  have "countsOk (run cap initial reqs)"
    by (rule run_countsOk) (simp add: countsOk_def initial_def)
  with kv have "0 \<le> availableSlots (snd kv)" "availableSlots (snd kv) \<le> totalSlots (snd kv)"
    by (auto simp: countsOk_def)
  from statusOf_rate [OF this] show
    "occupiedSlots c = cs_totalSlots c - cs_availableSlots c \<and>
     0 \<le> rateValue (occupancyRate c) \<and> rateValue (occupancyRate c) \<le> 100 \<and>
     (cs_totalSlots c = 0 \<longrightarrow> occupancyRate c = RateZero) \<and>
     (cs_totalSlots c \<noteq> 0 \<longrightarrow>
        (\<exists>n. occupancyRate c = RateFixed n) \<and>
        \<bar>rateValue (occupancyRate c) -
           of_int (occupiedSlots c) / of_int (cs_totalSlots c) * 100\<bar> \<le> 1 / 20)"
    unfolding c .
qed

theorem occupancy_rate_bounded_witness:
  "list_all (\<lambda>c. occupiedSlots c = cs_totalSlots c - cs_availableSlots c \<and>
                 0 \<le> rateValue (occupancyRate c) \<and> rateValue (occupancyRate c) \<le> 100)
     (currentStatus (run cap_server initial
        [report ''D1'' [SlotNum 0, SlotNum 1, SlotNum 1] 5, report ''D3'' [] 6])) \<and>
   map (\<lambda>c. (cs_deviceId c, cs_totalSlots c, cs_availableSlots c, occupiedSlots c,
              occupancyRate c))
     (currentStatus (run cap_server initial
        [report ''D1'' [SlotNum 0, SlotNum 1, SlotNum 1] 5, report ''D3'' [] 6])) =
     [(''D1'', 3, 1, 2, RateFixed 667), (''D3'', 0, 0, 0, RateZero)]"
proof -
  have a: "map (\<lambda>c. (cs_deviceId c, cs_totalSlots c, cs_availableSlots c, occupiedSlots c,
              occupancyRate c))
     (currentStatus (run cap_server initial
        [report ''D1'' [SlotNum 0, SlotNum 1, SlotNum 1] 5, report ''D3'' [] 6])) =
     [(''D1'', 3, 1, 2, RateFixed 667), (''D3'', 0, 0, 0, RateZero)]"
    by (simp add: handler_defs currentStatus_def statusOf_def toFixed1_def floor_eq_iff)
  have b: "list_all (\<lambda>c. occupiedSlots c = cs_totalSlots c - cs_availableSlots c \<and>
                 0 \<le> rateValue (occupancyRate c) \<and> rateValue (occupancyRate c) \<le> 100)
     (currentStatus (run cap_server initial
        [report ''D1'' [SlotNum 0, SlotNum 1, SlotNum 1] 5, report ''D3'' [] 6]))"
    unfolding list_all_iff
    using occupancy_rate_bounded [of cap_server
        "[report ''D1'' [SlotNum 0, SlotNum 1, SlotNum 1] 5, report ''D3'' [] 6]"]
    by blast
  show ?thesis using a b by simp
qed

text \<open>
  C8. The answer to a request with no \<open>deviceId\<close> is the object
  \<open>{error: "Device ID is required"}\<close> with status 400. It has no \<open>success\<close> property, so
  it is not structured, while the answer to an accepted report is.
\<close>

theorem missing_deviceId_answer_unstructured:
  "snd (postParkingStatus cap_server initial (anonymous [SlotNum 1] 9)) =
     \<lparr> status = 400, payload = JObj [(''error'', JStr ''Device ID is required'')] \<rparr> \<and>
   \<not> structured (payload (snd (postParkingStatus cap_server initial (anonymous [SlotNum 1] 9)))) \<and>
   structured (payload (snd (postParkingStatus cap_server initial (report ''D1'' [SlotNum 1] 9))))"
  by (simp add: postParkingStatus_def anonymous_def report_def badRequest_def structured_def
        updated_def processSlots_def Let_def)

text \<open>
  C9. A request whose \<open>deviceId\<close> is absent or the empty string is answered with the
  status 400, and the state, \<open>parkingData\<close> and \<open>slotHistory\<close>, is the one before.
\<close>

theorem missing_deviceId_refused:
  assumes "req_deviceId req = None \<or> req_deviceId req = Some []"
  shows "snd (postParkingStatus cap st req) = badRequest \<and> status badRequest = 400 \<and>
         fst (postParkingStatus cap st req) = st"
  using post_refused [OF assms] by (simp add: badRequest_def)

theorem missing_deviceId_refused_witness:
  "snd (postParkingStatus cap_server (run cap_server initial [report ''D1'' [SlotNum 0] 5])
          (anonymous [SlotNum 1] 9)) = badRequest \<and>
   status badRequest = 400 \<and>
   fst (postParkingStatus cap_server (run cap_server initial [report ''D1'' [SlotNum 0] 5])
          (anonymous [SlotNum 1] 9)) = run cap_server initial [report ''D1'' [SlotNum 0] 5] \<and>
   fst (postParkingStatus cap_server (run cap_server initial [report ''D1'' [SlotNum 0] 5])
          (report [] [SlotNum 1] 9)) = run cap_server initial [report ''D1'' [SlotNum 0] 5] \<and>
   parkingData (run cap_server initial [report ''D1'' [SlotNum 0] 5]) \<noteq> []"
proof -
  have a: "req_deviceId (anonymous [SlotNum 1] 9) = None \<or>
           req_deviceId (anonymous [SlotNum 1] 9) = Some []"
    by (simp add: anonymous_def)
  have b: "req_deviceId (report [] [SlotNum 1] 9) = None \<or>
           req_deviceId (report [] [SlotNum 1] 9) = Some []"
    by (simp add: report_def)
  have c: "parkingData (run cap_server initial [report ''D1'' [SlotNum 0] 5]) \<noteq> []"
    by (simp add: run_def initial_def report_def postParkingStatus_def processSlots_def
          Let_def)
  show ?thesis
    using missing_deviceId_refused [OF a] missing_deviceId_refused [OF b] c by simp
qed

text \<open>
  C10. An event whose duration is 0 is shown by the recent changes with no duration,
  and the whole dashboard, its recent changes and its slot usage statistics among the
  rest, is the one it would be had that event no duration.
\<close>

theorem zero_duration_as_none:
  assumes "duration e = Some 0"
  shows "ch_duration (changeOf e) = None \<and>
         recentChanges (st \<lparr> slotHistory := h1 @ e # h2 \<rparr>) =
           recentChanges (st \<lparr> slotHistory := h1 @ e \<lparr> duration := None \<rparr> # h2 \<rparr>) \<and>
         slotUsageStats now (st \<lparr> slotHistory := h1 @ e # h2 \<rparr>) =
           slotUsageStats now (st \<lparr> slotHistory := h1 @ e \<lparr> duration := None \<rparr> # h2 \<rparr>) \<and>
         dashboard zone now (st \<lparr> slotHistory := h1 @ e # h2 \<rparr>) =
           dashboard zone now (st \<lparr> slotHistory := h1 @ e \<lparr> duration := None \<rparr> # h2 \<rparr>)"
proof -
  have "ch_duration (changeOf e) = None"
    using assms by (simp add: changeOf_def zero_duration_falsy)
  moreover have "dashboard zone now (st \<lparr> slotHistory := h1 @ e # h2 \<rparr>) =
           dashboard zone now (st \<lparr> slotHistory := h1 @ e \<lparr> duration := None \<rparr> # h2 \<rparr>)"
    unfolding dashboard_def
    by (simp only: hourlyPattern_zero recentChanges_zero [OF assms] slotUsageStats_zero [OF assms]
          systemStatsOf_zero currentStatus_history)
  ultimately show ?thesis
    using recentChanges_zero [OF assms] slotUsageStats_zero [OF assms] by simp
qed

theorem zero_duration_as_none_witness:
  "map ch_duration (recentChanges
     \<lparr> parkingData = [],
       slotHistory =
         [\<lparr> log_deviceId = ''D1'', log_slotId = 1, previousState = Some True,
             newState = Some False, log_timestamp = 100, ipAddress = None,
             duration = Some 60000 \<rparr>,
          \<lparr> log_deviceId = ''D1'', log_slotId = 2, previousState = Some True,
             newState = Some False, log_timestamp = 200, ipAddress = None,
             duration = Some 0 \<rparr>] \<rparr>) = [None, Some 1] \<and>
   dashboard (fixedZone 0) 300
     \<lparr> parkingData = [],
       slotHistory =
         [\<lparr> log_deviceId = ''D1'', log_slotId = 1, previousState = Some True,
             newState = Some False, log_timestamp = 100, ipAddress = None,
             duration = Some 60000 \<rparr>,
          \<lparr> log_deviceId = ''D1'', log_slotId = 2, previousState = Some True,
             newState = Some False, log_timestamp = 200, ipAddress = None,
             duration = Some 0 \<rparr>] \<rparr> =
   dashboard (fixedZone 0) 300
     \<lparr> parkingData = [],
       slotHistory =
         [\<lparr> log_deviceId = ''D1'', log_slotId = 1, previousState = Some True,
             newState = Some False, log_timestamp = 100, ipAddress = None,
             duration = Some 60000 \<rparr>,
          \<lparr> log_deviceId = ''D1'', log_slotId = 2, previousState = Some True,
             newState = Some False, log_timestamp = 200, ipAddress = None,
             duration = None \<rparr>] \<rparr>"
proof -
  let ?a = "\<lparr> log_deviceId = ''D1'', log_slotId = 1, previousState = Some True,
             newState = Some False, log_timestamp = 100, ipAddress = None,
             duration = Some 60000 \<rparr>"
  let ?e = "\<lparr> log_deviceId = ''D1'', log_slotId = 2, previousState = Some True,
             newState = Some False, log_timestamp = 200, ipAddress = None,
             duration = Some 0 \<rparr>"
  let ?st = "\<lparr> parkingData = [], slotHistory = [] \<rparr>"
  have z: "duration ?e = Some 0" by simp
  have a: "ch_duration (changeOf ?a) = Some 1"
    by (simp add: changeOf_def durationTruthy_def jsRound_def floor_eq_iff)
  note t = zero_duration_as_none [OF z, of "[?a]" "[]" ?st 300 "fixedZone 0"]
  have n: "ch_duration (changeOf ?e) = None"
    by (rule t [THEN conjunct1])
  have d: "dashboard (fixedZone 0) 300 (?st \<lparr> slotHistory := [?a] @ ?e # [] \<rparr>) =
           dashboard (fixedZone 0) 300
             (?st \<lparr> slotHistory := [?a] @ ?e \<lparr> duration := None \<rparr> # [] \<rparr>)"
    by (rule t [THEN conjunct2, THEN conjunct2, THEN conjunct2])
  have "recentChanges (?st \<lparr> slotHistory := [?a] @ ?e # [] \<rparr>) = [changeOf ?e, changeOf ?a]"
    by (simp add: recentChanges_def)
  then have r: "map ch_duration (recentChanges (?st \<lparr> slotHistory := [?a] @ ?e # [] \<rparr>)) =
                  [None, Some 1]"
    using n a by simp
  show ?thesis using r d by simp
qed

end
